theory Spec2Isabelle
  imports Main "HOL-Library.Sublist"
begin

section \<open>Go primitives used by \<open>restore\<close>\<close>

text \<open>
  The program is concurrent: \<open>restore\<close> starts one goroutine per repository and the
  goroutines communicate through two buffered channels and a \<open>sync.WaitGroup\<close>.
  It is embedded as an interleaving semantics: every statement of the source is one
  atomic step of the goroutine that executes it, a step that would block is not enabled,
  and an execution is the sequence of steps picked by a schedule. A property of every
  execution is a theorem about every schedule. The version verified is the final one,
  06-before-you-start-a-goroutine/main.go; the original one is modelled beside it.
\<close>

subsection \<open>Buffered channels\<close>

text \<open>
  \<open>make(chan T, c)\<close> with \<open>c \<ge> 1\<close>: a queue of at most \<open>c\<close> values and a closed flag.
  A send blocks while the buffer is full and panics on a closed channel; a receive
  takes the oldest value, returns the zero value (here \<open>None\<close>) at once when the
  channel is closed and drained, and blocks otherwise; closing twice panics.
\<close>

record 'a chan =
  buf :: "'a list"
  capacity :: nat
  is_closed :: bool

datatype 'a outcome = Blocks | Panics | Proceeds 'a

definition make_chan :: "nat \<Rightarrow> 'a chan" where
  "make_chan c = \<lparr>buf = [], capacity = c, is_closed = False\<rparr>"

definition chan_send :: "'a \<Rightarrow> 'a chan \<Rightarrow> 'a chan outcome" where
  "chan_send v c =
     (if is_closed c then Panics
      else if length (buf c) < capacity c then Proceeds (c\<lparr>buf := buf c @ [v]\<rparr>)
      else Blocks)"

definition chan_recv :: "'a chan \<Rightarrow> ('a option \<times> 'a chan) outcome" where
  "chan_recv c =
     (case buf c of
        v # vs \<Rightarrow> Proceeds (Some v, c\<lparr>buf := vs\<rparr>)
      | [] \<Rightarrow> if is_closed c then Proceeds (None, c) else Blocks)"

definition chan_close :: "'a chan \<Rightarrow> 'a chan outcome" where
  "chan_close c = (if is_closed c then Panics else Proceeds (c\<lparr>is_closed := True\<rparr>))"

text \<open>
  \<open>select { case ch <- v: ... default: ... }\<close>: the send is taken when it can proceed
  (which on a closed channel means the panic), the default branch otherwise. It never
  blocks.
\<close>

definition chan_try_send :: "'a \<Rightarrow> 'a chan \<Rightarrow> 'a chan outcome" where
  "chan_try_send v c =
     (case chan_send v c of Blocks \<Rightarrow> Proceeds c | r \<Rightarrow> r)"

subsection \<open>WaitGroup\<close>

text \<open>
  The counter of a \<open>sync.WaitGroup\<close>. \<open>Add\<close> panics when the counter becomes negative,
  \<open>Done\<close> is \<open>Add(-1)\<close>, \<open>Wait\<close> blocks until the counter is zero.
\<close>

definition wg_add :: "int \<Rightarrow> int \<Rightarrow> int outcome" where
  "wg_add delta c = (if c + delta < 0 then Panics else Proceeds (c + delta))"

definition wg_done :: "int \<Rightarrow> int outcome" where
  "wg_done c = wg_add (- 1) c"

definition wg_wait :: "int \<Rightarrow> unit outcome" where
  "wg_wait c = (if c = 0 then Proceeds () else Blocks)"

section \<open>The program state\<close>

text \<open>
  \<open>fetch\<close> of the source prints one line and returns \<open>nil\<close>. It stands for an
  arbitrary unit of work that may fail, so the steps below take the work function as the
  parameter \<open>f\<close> (\<open>None\<close> is Go's \<open>nil\<close> error); \<open>fetch\<close> is the instance the
  source ships.
\<close>

definition fetch :: "string \<Rightarrow> 'e option" where
  "fetch repo = None"

text \<open>
  Program points of \<open>worker\<close> (06-before-you-start-a-goroutine/main.go, lines 37 to 49).
  \<open>WSelect e\<close> is the \<open>select\<close> statement, reached with the non-nil error \<open>e\<close>.
\<close>

datatype 'e wpc =
    WDefer        \<comment> \<open>at \<open>defer wg.Done()\<close>\<close>
  | WAcquire      \<comment> \<open>at \<open>sem <- 1\<close>\<close>
  | WFetch        \<comment> \<open>at \<open>err := fetch(repo)\<close>\<close>
  | WSelect 'e    \<comment> \<open>at \<open>select { case errChan <- err: default: }\<close>\<close>
  | WRelease      \<comment> \<open>at \<open><-sem\<close>\<close>
  | WReturn       \<comment> \<open>at the end of the body: the deferred calls run\<close>
  | WExit         \<comment> \<open>the goroutine has ended\<close>

text \<open>
  What a goroutine has done so far. The history is instrumentation: no step reads it.
\<close>

datatype event = Acquired | Fetched string | Released | Signalled

record 'e task =
  repo :: string        \<comment> \<open>the parameter \<open>repo\<close>, copied when the goroutine is started\<close>
  pc :: "'e wpc"
  deferred :: bool      \<comment> \<open>\<open>wg.Done\<close> is on the defer stack\<close>
  hist :: "event list"

text \<open>Program points of \<open>restore\<close> (lines 24 to 35); the two \<open>make\<close>s are the initial state.\<close>

datatype 'e mpc =
    MAdd                    \<comment> \<open>at \<open>wg.Add(len(repos))\<close>\<close>
  | MLoop nat               \<comment> \<open>at the head of the loop, about to take \<open>repos[i]\<close>\<close>
  | MWait                   \<comment> \<open>at \<open>wg.Wait()\<close>\<close>
  | MClose                  \<comment> \<open>at \<open>close(errChan)\<close>\<close>
  | MRecv                   \<comment> \<open>at \<open>return <-errChan\<close>\<close>
  | MReturned "'e option"   \<comment> \<open>\<open>restore\<close> has returned this error\<close>

record 'e state =
  mpc :: "'e mpc"
  tasks :: "'e task list"     \<comment> \<open>the goroutines started so far, in the order of their start\<close>
  sem :: "int chan"
  errChan :: "'e chan"
  wg :: int
  crashed :: bool             \<comment> \<open>a goroutine has panicked: the program is dead\<close>

text \<open>
  The state after \<open>errChan := make(chan error, 1)\<close>, \<open>sem := make(chan int, n)\<close> and
  \<open>var wg sync.WaitGroup\<close>. The source has \<open>n = 4\<close>.
\<close>

definition start :: "nat \<Rightarrow> 'e state" where
  "start n = \<lparr>mpc = MAdd, tasks = [], sem = make_chan n, errChan = make_chan 1,
              wg = 0, crashed = False\<rparr>"

section \<open>The steps of \<open>restore\<close> and \<open>worker\<close>\<close>

definition panic :: "'e state \<Rightarrow> 'e state option" where
  "panic s = Some (s\<lparr>crashed := True\<rparr>)"

definition new_task :: "string \<Rightarrow> 'e task" where
  "new_task r = \<lparr>repo = r, pc = WDefer, deferred = False, hist = []\<rparr>"

text \<open>One statement of \<open>restore\<close>. \<open>None\<close>: the statement blocks (or \<open>restore\<close> has returned).\<close>

definition restore_step :: "string list \<Rightarrow> 'e state \<Rightarrow> 'e state option" where
  "restore_step repos s =
     (case mpc s of
        MAdd \<Rightarrow>
          (case wg_add (int (length repos)) (wg s) of
             Proceeds c \<Rightarrow> Some (s\<lparr>wg := c, mpc := MLoop 0\<rparr>)
           | Panics \<Rightarrow> panic s
           | Blocks \<Rightarrow> None)
      | MLoop i \<Rightarrow>
          (if i < length repos
           then Some (s\<lparr>tasks := tasks s @ [new_task (repos ! i)], mpc := MLoop (Suc i)\<rparr>)
           else Some (s\<lparr>mpc := MWait\<rparr>))
      | MWait \<Rightarrow>
          (case wg_wait (wg s) of
             Proceeds _ \<Rightarrow> Some (s\<lparr>mpc := MClose\<rparr>)
           | Panics \<Rightarrow> panic s
           | Blocks \<Rightarrow> None)
      | MClose \<Rightarrow>
          (case chan_close (errChan s) of
             Proceeds c \<Rightarrow> Some (s\<lparr>errChan := c, mpc := MRecv\<rparr>)
           | Panics \<Rightarrow> panic s
           | Blocks \<Rightarrow> None)
      | MRecv \<Rightarrow>
          (case chan_recv (errChan s) of
             Proceeds (v, c) \<Rightarrow> Some (s\<lparr>errChan := c, mpc := MReturned v\<rparr>)
           | Panics \<Rightarrow> panic s
           | Blocks \<Rightarrow> None)
      | MReturned r \<Rightarrow> None)"

text \<open>One statement of the goroutine running \<open>worker\<close> that was started as number \<open>i\<close>.\<close>

definition set_task :: "nat \<Rightarrow> 'e task \<Rightarrow> 'e state \<Rightarrow> 'e state" where
  "set_task i t s = s\<lparr>tasks := (tasks s)[i := t]\<rparr>"

definition worker_step :: "(string \<Rightarrow> 'e option) \<Rightarrow> nat \<Rightarrow> 'e state \<Rightarrow> 'e state option" where
  "worker_step f i s =
     (if length (tasks s) \<le> i then None
      else
        let t = tasks s ! i in
        case pc t of
          WDefer \<Rightarrow> Some (set_task i (t\<lparr>deferred := True, pc := WAcquire\<rparr>) s)
        | WAcquire \<Rightarrow>
            (case chan_send 1 (sem s) of
               Proceeds c \<Rightarrow>
                 Some (set_task i (t\<lparr>pc := WFetch, hist := hist t @ [Acquired]\<rparr>) (s\<lparr>sem := c\<rparr>))
             | Panics \<Rightarrow> panic s
             | Blocks \<Rightarrow> None)
        | WFetch \<Rightarrow>
            (case f (repo t) of
               None \<Rightarrow>
                 Some (set_task i (t\<lparr>pc := WRelease, hist := hist t @ [Fetched (repo t)]\<rparr>) s)
             | Some e \<Rightarrow>
                 Some (set_task i (t\<lparr>pc := WSelect e, hist := hist t @ [Fetched (repo t)]\<rparr>) s))
        | WSelect e \<Rightarrow>
            (case chan_try_send e (errChan s) of
               Proceeds c \<Rightarrow> Some (set_task i (t\<lparr>pc := WRelease\<rparr>) (s\<lparr>errChan := c\<rparr>))
             | Panics \<Rightarrow> panic s
             | Blocks \<Rightarrow> None)
        | WRelease \<Rightarrow>
            (case chan_recv (sem s) of
               Proceeds (v, c) \<Rightarrow>
                 Some (set_task i (t\<lparr>pc := WReturn, hist := hist t @ [Released]\<rparr>) (s\<lparr>sem := c\<rparr>))
             | Panics \<Rightarrow> panic s
             | Blocks \<Rightarrow> None)
        | WReturn \<Rightarrow>
            (if deferred t
             then (case wg_done (wg s) of
                     Proceeds c \<Rightarrow>
                       Some (set_task i (t\<lparr>pc := WExit, deferred := False,
                                           hist := hist t @ [Signalled]\<rparr>) (s\<lparr>wg := c\<rparr>))
                   | Panics \<Rightarrow> panic s
                   | Blocks \<Rightarrow> None)
             else Some (set_task i (t\<lparr>pc := WExit\<rparr>) s))
        | WExit \<Rightarrow> None)"

subsection \<open>Schedules\<close>

datatype tid = Main | Worker nat

text \<open>A panic ends the program: no goroutine moves afterwards.\<close>

definition step :: "(string \<Rightarrow> 'e option) \<Rightarrow> string list \<Rightarrow> tid \<Rightarrow> 'e state \<Rightarrow> 'e state option" where
  "step f repos t s =
     (if crashed s then None
      else case t of Main \<Rightarrow> restore_step repos s | Worker i \<Rightarrow> worker_step f i s)"

text \<open>
  An execution under a schedule: the scheduled goroutine takes its step; scheduling a
  goroutine that is blocked, has ended or does not exist leaves the state as it is.
\<close>

fun run :: "(string \<Rightarrow> 'e option) \<Rightarrow> string list \<Rightarrow> tid list \<Rightarrow> 'e state \<Rightarrow> 'e state" where
  "run f repos [] s = s"
| "run f repos (t # ts) s =
     run f repos ts (case step f repos t s of None \<Rightarrow> s | Some s' \<Rightarrow> s')"

text \<open>The number of steps really taken under a schedule.\<close>

fun moves :: "(string \<Rightarrow> 'e option) \<Rightarrow> string list \<Rightarrow> tid list \<Rightarrow> 'e state \<Rightarrow> nat" where
  "moves f repos [] s = 0"
| "moves f repos (t # ts) s =
     (case step f repos t s of
        None \<Rightarrow> moves f repos ts s
      | Some s' \<Rightarrow> Suc (moves f repos ts s'))"

text \<open>What \<open>restore\<close> has returned, if it has.\<close>

definition returned :: "'e state \<Rightarrow> 'e option option" where
  "returned s = (case mpc s of MReturned r \<Rightarrow> Some r | _ \<Rightarrow> None)"

text \<open>The goroutines of a state, and whether one of them can move.\<close>

definition threads :: "'e state \<Rightarrow> tid list" where
  "threads s = Main # map Worker [0..<length (tasks s)]"

definition can_move :: "(string \<Rightarrow> 'e option) \<Rightarrow> string list \<Rightarrow> 'e state \<Rightarrow> bool" where
  "can_move f repos s = list_ex (\<lambda>t. step f repos t s \<noteq> None) (threads s)"

text \<open>Round-robin schedule over \<open>restore\<close> and \<open>k\<close> workers, \<open>r\<close> rounds.\<close>

definition round_robin :: "nat \<Rightarrow> nat \<Rightarrow> tid list" where
  "round_robin k r = concat (replicate r (Main # map Worker [0..<k]))"

subsection \<open>Observations on a state\<close>

text \<open>A task holds the gate: it has sent on \<open>sem\<close> and not yet received from it.\<close>

definition holding :: "'e task \<Rightarrow> bool" where
  "holding t = (count_list (hist t) Released < count_list (hist t) Acquired)"

definition holders :: "'e state \<Rightarrow> nat" where
  "holders s = length (filter holding (tasks s))"

text \<open>The items a task has called the work function with, and all calls in task order.\<close>

fun fetched :: "event list \<Rightarrow> string list" where
  "fetched [] = []"
| "fetched (Fetched r # es) = r # fetched es"
| "fetched (_ # es) = fetched es"

definition calls :: "'e state \<Rightarrow> string list list" where
  "calls s = map (\<lambda>t. fetched (hist t)) (tasks s)"

definition exited :: "'e state \<Rightarrow> nat" where
  "exited s = length (filter (\<lambda>t. pc t = WExit) (tasks s))"

text \<open>
  A call \<open>restore(repos)\<close> with work function \<open>f\<close> and a gate of capacity \<open>n\<close>, run under
  a schedule: the state that the program is in when the schedule is used up.
\<close>

definition restore :: "(string \<Rightarrow> 'e option) \<Rightarrow> nat \<Rightarrow> string list \<Rightarrow> tid list \<Rightarrow> 'e state" where
  "restore f n repos sched = run f repos sched (start n)"

text \<open>The order in which \<open>worker\<close> is written: acquire, work, release, signal.\<close>

definition task_order :: "string \<Rightarrow> event list" where
  "task_order r = [Acquired, Fetched r, Released, Signalled]"

text \<open>\<open>wg.Wait()\<close> has returned.\<close>

fun waited :: "'e mpc \<Rightarrow> bool" where
  "waited MClose = True"
| "waited MRecv = True"
| "waited (MReturned r) = True"
| "waited _ = False"

subsection \<open>Concrete inputs\<close>

text \<open>The list that \<open>main\<close> passes to \<open>restore\<close>.\<close>

definition main_repos :: "string list" where
  "main_repos = [''fatih/vim-go'', ''pkg/errors'', ''rakyll/gotest'', ''spf13/cobra'', ''golang/go'']"

text \<open>A work function that fails on the listed repositories.\<close>

definition failing_on :: "string list \<Rightarrow> string \<Rightarrow> string option" where
  "failing_on bad r = (if r \<in> set bad then Some (''cannot fetch '' @ r) else None)"

text \<open>A schedule written as runs: \<open>(t, k)\<close> schedules \<open>t\<close> for \<open>k\<close> steps.\<close>

definition script :: "(tid \<times> nat) list \<Rightarrow> tid list" where
  "script xs = concat (map (\<lambda>(t, k). replicate k t) xs)"

text \<open>
  All five goroutines of \<open>main_repos\<close> are started; the first has stored its error, the
  second is at its \<open>select\<close>.
\<close>

definition two_failures :: "tid list" where
  "two_failures = script [(Main, 7), (Worker 0, 4), (Worker 1, 3)]"

text \<open>All five goroutines are started and four of them hold the gate: three are at the work call, one at its release, and the fifth is at its acquire.\<close>

definition full_gate :: "tid list" where
  "full_gate = script [(Main, 7), (Worker 0, 2), (Worker 1, 2), (Worker 2, 2), (Worker 3, 3), (Worker 4, 1)]"

text \<open>Four goroutines are started and hold the gate while \<open>restore\<close> is still in its loop, about to start the fifth.\<close>

definition gate_full_in_loop :: "tid list" where
  "gate_full_in_loop = script [(Main, 5), (Worker 0, 2), (Worker 1, 2), (Worker 2, 2), (Worker 3, 2)]"

text \<open>The first goroutine has installed its deferred call and is at its acquire.\<close>

definition before_acquire :: "tid list" where
  "before_acquire = script [(Main, 5), (Worker 0, 1)]"

text \<open>The first goroutine has released the gate and is at its return.\<close>

definition before_done :: "tid list" where
  "before_done = script [(Main, 7), (Worker 0, 4)]"


text \<open>Four goroutines have ended; the fifth has released the gate and is at its return, while \<open>restore\<close> is at \<open>wg.Wait()\<close>.\<close>

definition one_left :: "tid list" where
  "one_left = script [(Main, 7), (Worker 0, 6), (Worker 1, 5), (Worker 2, 5), (Worker 3, 5), (Worker 4, 4)]"

section \<open>The original version of \<open>restore\<close>\<close>

text \<open>
  01-original/main.go is the version the later ones were refactored from. It differs in
  four places: \<open>restore\<close> sends on \<open>sem\<close> in its loop, before it starts the goroutine;
  the goroutine is a closure that reads the loop variable \<open>repo\<close> of \<open>restore\<close> (one
  variable for all iterations, in the Go of this repository); the closure sends its error
  with a plain, blocking send; and its deferred function calls \<open>wg.Done()\<close> first and
  receives from \<open>sem\<close> afterwards. \<open>restore\<close> also closes \<open>sem\<close>. It is modelled in the
  same way, to compare it with the final version.
\<close>

datatype 'e opc =
    ODefer        \<comment> \<open>at \<open>defer func() { wg.Done(); <-sem }()\<close>\<close>
  | OFetch        \<comment> \<open>at \<open>err := fetch(repo)\<close>, \<open>repo\<close> being the loop variable of \<open>restore\<close>\<close>
  | OSend 'e      \<comment> \<open>at \<open>errChan <- err\<close>\<close>
  | ODone         \<comment> \<open>in the deferred function, at \<open>wg.Done()\<close>\<close>
  | ORelease      \<comment> \<open>in the deferred function, at \<open><-sem\<close>\<close>
  | OExit         \<comment> \<open>the goroutine has ended\<close>

record 'e closure =
  cpc :: "'e opc"
  chist :: "event list"

datatype 'e ompc =
    OAdd                    \<comment> \<open>at \<open>wg.Add(len(repos))\<close>\<close>
  | ORange nat              \<comment> \<open>at the head of the loop, about to assign \<open>repos[i]\<close> to \<open>repo\<close>\<close>
  | OAcquire nat            \<comment> \<open>in the loop body, at \<open>sem <- 1\<close>\<close>
  | OGo nat                 \<comment> \<open>in the loop body, at \<open>go func() { ... }()\<close>\<close>
  | OWait                   \<comment> \<open>at \<open>wg.Wait()\<close>\<close>
  | OCloseSem               \<comment> \<open>at \<open>close(sem)\<close>\<close>
  | OCloseErr               \<comment> \<open>at \<open>close(errChan)\<close>\<close>
  | ORecv                   \<comment> \<open>at \<open>return <-errChan\<close>\<close>
  | OReturned "'e option"

record 'e ostate =
  ompc :: "'e ompc"
  loop_repo :: string             \<comment> \<open>the loop variable \<open>repo\<close>, shared with the closures\<close>
  closures :: "'e closure list"
  osem :: "int chan"
  oerrChan :: "'e chan"
  owg :: int
  ocrashed :: bool

definition original_start :: "nat \<Rightarrow> 'e ostate" where
  "original_start n = \<lparr>ompc = OAdd, loop_repo = [], closures = [], osem = make_chan n,
                       oerrChan = make_chan 1, owg = 0, ocrashed = False\<rparr>"

definition opanic :: "'e ostate \<Rightarrow> 'e ostate option" where
  "opanic s = Some (s\<lparr>ocrashed := True\<rparr>)"

definition original_restore_step :: "string list \<Rightarrow> 'e ostate \<Rightarrow> 'e ostate option" where
  "original_restore_step repos s =
     (case ompc s of
        OAdd \<Rightarrow>
          (case wg_add (int (length repos)) (owg s) of
             Proceeds c \<Rightarrow> Some (s\<lparr>owg := c, ompc := ORange 0\<rparr>)
           | Panics \<Rightarrow> opanic s
           | Blocks \<Rightarrow> None)
      | ORange i \<Rightarrow>
          (if i < length repos
           then Some (s\<lparr>loop_repo := repos ! i, ompc := OAcquire i\<rparr>)
           else Some (s\<lparr>ompc := OWait\<rparr>))
      | OAcquire i \<Rightarrow>
          (case chan_send 1 (osem s) of
             Proceeds c \<Rightarrow> Some (s\<lparr>osem := c, ompc := OGo i\<rparr>)
           | Panics \<Rightarrow> opanic s
           | Blocks \<Rightarrow> None)
      | OGo i \<Rightarrow>
          Some (s\<lparr>closures := closures s @ [\<lparr>cpc = ODefer, chist = []\<rparr>], ompc := ORange (Suc i)\<rparr>)
      | OWait \<Rightarrow>
          (case wg_wait (owg s) of
             Proceeds _ \<Rightarrow> Some (s\<lparr>ompc := OCloseSem\<rparr>)
           | Panics \<Rightarrow> opanic s
           | Blocks \<Rightarrow> None)
      | OCloseSem \<Rightarrow>
          (case chan_close (osem s) of
             Proceeds c \<Rightarrow> Some (s\<lparr>osem := c, ompc := OCloseErr\<rparr>)
           | Panics \<Rightarrow> opanic s
           | Blocks \<Rightarrow> None)
      | OCloseErr \<Rightarrow>
          (case chan_close (oerrChan s) of
             Proceeds c \<Rightarrow> Some (s\<lparr>oerrChan := c, ompc := ORecv\<rparr>)
           | Panics \<Rightarrow> opanic s
           | Blocks \<Rightarrow> None)
      | ORecv \<Rightarrow>
          (case chan_recv (oerrChan s) of
             Proceeds (v, c) \<Rightarrow> Some (s\<lparr>oerrChan := c, ompc := OReturned v\<rparr>)
           | Panics \<Rightarrow> opanic s
           | Blocks \<Rightarrow> None)
      | OReturned r \<Rightarrow> None)"

definition set_closure :: "nat \<Rightarrow> 'e closure \<Rightarrow> 'e ostate \<Rightarrow> 'e ostate" where
  "set_closure i t s = s\<lparr>closures := (closures s)[i := t]\<rparr>"

definition original_closure_step ::
    "(string \<Rightarrow> 'e option) \<Rightarrow> nat \<Rightarrow> 'e ostate \<Rightarrow> 'e ostate option" where
  "original_closure_step f i s =
     (if length (closures s) \<le> i then None
      else
        let t = closures s ! i in
        case cpc t of
          ODefer \<Rightarrow> Some (set_closure i (t\<lparr>cpc := OFetch\<rparr>) s)
        | OFetch \<Rightarrow>
            (case f (loop_repo s) of
               None \<Rightarrow>
                 Some (set_closure i (t\<lparr>cpc := ODone, chist := chist t @ [Fetched (loop_repo s)]\<rparr>) s)
             | Some e \<Rightarrow>
                 Some (set_closure i (t\<lparr>cpc := OSend e, chist := chist t @ [Fetched (loop_repo s)]\<rparr>) s))
        | OSend e \<Rightarrow>
            (case chan_send e (oerrChan s) of
               Proceeds c \<Rightarrow> Some (set_closure i (t\<lparr>cpc := ODone\<rparr>) (s\<lparr>oerrChan := c\<rparr>))
             | Panics \<Rightarrow> opanic s
             | Blocks \<Rightarrow> None)
        | ODone \<Rightarrow>
            (case wg_done (owg s) of
               Proceeds c \<Rightarrow>
                 Some (set_closure i (t\<lparr>cpc := ORelease, chist := chist t @ [Signalled]\<rparr>)
                        (s\<lparr>owg := c\<rparr>))
             | Panics \<Rightarrow> opanic s
             | Blocks \<Rightarrow> None)
        | ORelease \<Rightarrow>
            (case chan_recv (osem s) of
               Proceeds (v, c) \<Rightarrow>
                 Some (set_closure i (t\<lparr>cpc := OExit, chist := chist t @ [Released]\<rparr>)
                        (s\<lparr>osem := c\<rparr>))
             | Panics \<Rightarrow> opanic s
             | Blocks \<Rightarrow> None)
        | OExit \<Rightarrow> None)"

definition original_step ::
    "(string \<Rightarrow> 'e option) \<Rightarrow> string list \<Rightarrow> tid \<Rightarrow> 'e ostate \<Rightarrow> 'e ostate option" where
  "original_step f repos t s =
     (if ocrashed s then None
      else case t of Main \<Rightarrow> original_restore_step repos s
                   | Worker i \<Rightarrow> original_closure_step f i s)"

fun original_run ::
    "(string \<Rightarrow> 'e option) \<Rightarrow> string list \<Rightarrow> tid list \<Rightarrow> 'e ostate \<Rightarrow> 'e ostate" where
  "original_run f repos [] s = s"
| "original_run f repos (t # ts) s =
     original_run f repos ts (case original_step f repos t s of None \<Rightarrow> s | Some s' \<Rightarrow> s')"

definition original_restore ::
    "(string \<Rightarrow> 'e option) \<Rightarrow> nat \<Rightarrow> string list \<Rightarrow> tid list \<Rightarrow> 'e ostate" where
  "original_restore f n repos sched = original_run f repos sched (original_start n)"

definition original_stuck :: "(string \<Rightarrow> 'e option) \<Rightarrow> string list \<Rightarrow> 'e ostate \<Rightarrow> bool" where
  "original_stuck f repos s =
     list_all (\<lambda>t. original_step f repos t s = None) (Main # map Worker [0..<length (closures s)])"

text \<open>Schedules of the original version.\<close>

definition both_fail :: "tid list" where
  "both_fail = script [(Main, 8), (Worker 0, 5), (Worker 1, 5), (Main, 5)]"

definition loop_only :: "tid list" where
  "loop_only = script [(Main, 14)]"

definition done_not_released :: "tid list" where
  "done_not_released = script [(Main, 5), (Worker 0, 3), (Main, 1)]"

definition loop_before_fetch :: "tid list" where
  "loop_before_fetch = script [(Main, 8), (Worker 0, 2), (Worker 1, 2)]"

section \<open>The invariant of \<open>restore\<close>\<close>

text \<open>
  The definitions of this section are used in proofs only. A task is inside the gate
  between its send on \<open>sem\<close> and its receive from it, and it is past the \<open>select\<close> from
  the receive onwards.
\<close>

fun in_gate :: "'e wpc \<Rightarrow> bool" where
  "in_gate WFetch = True"
| "in_gate (WSelect e) = True"
| "in_gate WRelease = True"
| "in_gate _ = False"

fun after_select :: "'e wpc \<Rightarrow> bool" where
  "after_select WRelease = True"
| "after_select WReturn = True"
| "after_select WExit = True"
| "after_select _ = False"

fun receiving :: "'e mpc \<Rightarrow> bool" where
  "receiving MRecv = True"
| "receiving (MReturned r) = True"
| "receiving _ = False"

definition gate_count :: "'e state \<Rightarrow> nat" where
  "gate_count s = length (filter (\<lambda>t. in_gate (pc t)) (tasks s))"

definition expected_hist :: "'e task \<Rightarrow> event list" where
  "expected_hist t =
     (case pc t of
        WDefer \<Rightarrow> []
      | WAcquire \<Rightarrow> []
      | WFetch \<Rightarrow> [Acquired]
      | WSelect e \<Rightarrow> [Acquired, Fetched (repo t)]
      | WRelease \<Rightarrow> [Acquired, Fetched (repo t)]
      | WReturn \<Rightarrow> [Acquired, Fetched (repo t), Released]
      | WExit \<Rightarrow> [Acquired, Fetched (repo t), Released, Signalled])"

definition task_ok :: "(string \<Rightarrow> 'e option) \<Rightarrow> 'e task \<Rightarrow> bool" where
  "task_ok f t \<longleftrightarrow>
     deferred t = (pc t \<noteq> WDefer \<and> pc t \<noteq> WExit) \<and>
     hist t = expected_hist t \<and>
     (case pc t of WSelect e \<Rightarrow> f (repo t) = Some e | _ \<Rightarrow> True)"

definition inv_static :: "nat \<Rightarrow> 'e state \<Rightarrow> bool" where
  "inv_static n s \<longleftrightarrow>
     \<not> is_closed (sem s) \<and> capacity (sem s) = n \<and> capacity (errChan s) = 1"

definition inv_tasks :: "(string \<Rightarrow> 'e option) \<Rightarrow> string list \<Rightarrow> 'e state \<Rightarrow> bool" where
  "inv_tasks f repos s \<longleftrightarrow>
     (\<forall>i < length (tasks s). task_ok f (tasks s ! i) \<and> repo (tasks s ! i) = repos ! i) \<and>
     (case mpc s of
        MAdd \<Rightarrow> tasks s = []
      | MLoop i \<Rightarrow> length (tasks s) = i \<and> i \<le> length repos
      | _ \<Rightarrow> length (tasks s) = length repos)"

definition inv_wg :: "string list \<Rightarrow> 'e state \<Rightarrow> bool" where
  "inv_wg repos s \<longleftrightarrow>
     wg s = (if mpc s = MAdd then 0 else int (length repos) - int (exited s)) \<and>
     (waited (mpc s) \<longrightarrow> exited s = length (tasks s))"

definition inv_sem :: "nat \<Rightarrow> 'e state \<Rightarrow> bool" where
  "inv_sem n s \<longleftrightarrow> buf (sem s) = replicate (gate_count s) 1 \<and> gate_count s \<le> n"

definition result_ok :: "(string \<Rightarrow> 'e option) \<Rightarrow> string list \<Rightarrow> 'e option \<Rightarrow> bool" where
  "result_ok f repos r =
     (case r of None \<Rightarrow> (\<forall>x \<in> set repos. f x = None) | Some e \<Rightarrow> (\<exists>x \<in> set repos. f x = Some e))"

definition latch_ok :: "(string \<Rightarrow> 'e option) \<Rightarrow> string list \<Rightarrow> 'e task list \<Rightarrow> 'e list \<Rightarrow> bool" where
  "latch_ok f repos ts b =
     (case b of
        [] \<Rightarrow> (\<forall>i < length ts. after_select (pc (ts ! i)) \<longrightarrow> f (repo (ts ! i)) = None)
      | [e] \<Rightarrow> (\<exists>x \<in> set repos. f x = Some e)
      | _ \<Rightarrow> False)"

definition inv_err :: "(string \<Rightarrow> 'e option) \<Rightarrow> string list \<Rightarrow> 'e state \<Rightarrow> bool" where
  "inv_err f repos s \<longleftrightarrow>
     is_closed (errChan s) = receiving (mpc s) \<and>
     (case mpc s of
        MReturned r \<Rightarrow> buf (errChan s) = [] \<and> result_ok f repos r
      | _ \<Rightarrow> latch_ok f repos (tasks s) (buf (errChan s)))"

definition restore_inv :: "(string \<Rightarrow> 'e option) \<Rightarrow> nat \<Rightarrow> string list \<Rightarrow> 'e state \<Rightarrow> bool" where
  "restore_inv f n repos s \<longleftrightarrow>
     \<not> crashed s \<and> inv_static n s \<and> inv_tasks f repos s \<and> inv_wg repos s \<and> inv_sem n s \<and>
     inv_err f repos s"

text \<open>
  The number of steps that \<open>restore\<close> and the started goroutines can still take, with
  seven steps for every goroutine that is still to be started.
\<close>

fun task_left :: "'e wpc \<Rightarrow> nat" where
  "task_left WDefer = 6"
| "task_left WAcquire = 5"
| "task_left WFetch = 4"
| "task_left (WSelect e) = 3"
| "task_left WRelease = 2"
| "task_left WReturn = 1"
| "task_left WExit = 0"

fun main_left :: "nat \<Rightarrow> 'e mpc \<Rightarrow> nat" where
  "main_left len MAdd = 7 * len + 5"
| "main_left len (MLoop i) = 7 * (len - i) + 4"
| "main_left len MWait = 3"
| "main_left len MClose = 2"
| "main_left len MRecv = 1"
| "main_left len (MReturned r) = 0"

definition remaining :: "string list \<Rightarrow> 'e state \<Rightarrow> nat" where
  "remaining repos s =
     main_left (length repos) (mpc s) + sum_list (map (\<lambda>t. task_left (pc t)) (tasks s))"

section \<open>The step of each program point\<close>

lemma count_filter_update:
  "i < length xs \<Longrightarrow>
   int (length (filter P (xs[i := y]))) =
     int (length (filter P xs)) - of_bool (P (xs ! i)) + of_bool (P y)"
proof (induction xs arbitrary: i)
  case Nil
  then show ?case by simp
next
  case (Cons x xs)
  then show ?case by (cases i) auto
qed

lemma worker_step_none: "length (tasks s) \<le> i \<Longrightarrow> worker_step f i s = None"
  by (simp add: worker_step_def Let_def)

lemma worker_step_WDefer:
  "i < length (tasks s) \<Longrightarrow> pc (tasks s ! i) = WDefer \<Longrightarrow>
   worker_step f i s = Some (set_task i ((tasks s ! i)\<lparr>deferred := True, pc := WAcquire\<rparr>) s)"
  by (simp add: worker_step_def Let_def)

lemma worker_step_WAcquire:
  "i < length (tasks s) \<Longrightarrow> pc (tasks s ! i) = WAcquire \<Longrightarrow>
   worker_step f i s =
     (if is_closed (sem s) then panic s
      else if length (buf (sem s)) < capacity (sem s)
      then Some (set_task i ((tasks s ! i)\<lparr>pc := WFetch, hist := hist (tasks s ! i) @ [Acquired]\<rparr>)
                  (s\<lparr>sem := (sem s)\<lparr>buf := buf (sem s) @ [1]\<rparr>\<rparr>))
      else None)"
  by (simp add: worker_step_def chan_send_def Let_def)

lemma worker_step_WFetch:
  "i < length (tasks s) \<Longrightarrow> pc (tasks s ! i) = WFetch \<Longrightarrow>
   worker_step f i s =
     Some (set_task i ((tasks s ! i)\<lparr>pc := (case f (repo (tasks s ! i)) of None \<Rightarrow> WRelease | Some e \<Rightarrow> WSelect e),
                          hist := hist (tasks s ! i) @ [Fetched (repo (tasks s ! i))]\<rparr>) s)"
  by (simp add: worker_step_def Let_def split: option.splits)

lemma worker_step_WSelect:
  "i < length (tasks s) \<Longrightarrow> pc (tasks s ! i) = WSelect e \<Longrightarrow>
   worker_step f i s =
     (if is_closed (errChan s) then panic s
      else Some (set_task i ((tasks s ! i)\<lparr>pc := WRelease\<rparr>)
                  (s\<lparr>errChan := (if length (buf (errChan s)) < capacity (errChan s)
                                 then (errChan s)\<lparr>buf := buf (errChan s) @ [e]\<rparr>
                                 else errChan s)\<rparr>)))"
  by (simp add: worker_step_def chan_send_def chan_try_send_def Let_def)

lemma worker_step_WRelease:
  "i < length (tasks s) \<Longrightarrow> pc (tasks s ! i) = WRelease \<Longrightarrow>
   worker_step f i s =
     (case buf (sem s) of
        [] \<Rightarrow> if is_closed (sem s)
              then Some (set_task i ((tasks s ! i)\<lparr>pc := WReturn, hist := hist (tasks s ! i) @ [Released]\<rparr>) s)
              else None
      | v # vs \<Rightarrow>
          Some (set_task i ((tasks s ! i)\<lparr>pc := WReturn, hist := hist (tasks s ! i) @ [Released]\<rparr>)
                 (s\<lparr>sem := (sem s)\<lparr>buf := vs\<rparr>\<rparr>)))"
  by (simp add: worker_step_def chan_recv_def Let_def split: list.splits)

lemma worker_step_WReturn:
  "i < length (tasks s) \<Longrightarrow> pc (tasks s ! i) = WReturn \<Longrightarrow>
   worker_step f i s =
     (if deferred (tasks s ! i)
      then if wg s - 1 < 0 then panic s
           else Some (set_task i ((tasks s ! i)\<lparr>pc := WExit, deferred := False,
                          hist := hist (tasks s ! i) @ [Signalled]\<rparr>) (s\<lparr>wg := wg s - 1\<rparr>))
      else Some (set_task i ((tasks s ! i)\<lparr>pc := WExit\<rparr>) s))"
  by (simp add: worker_step_def wg_done_def wg_add_def Let_def)

lemma worker_step_WExit:
  "i < length (tasks s) \<Longrightarrow> pc (tasks s ! i) = WExit \<Longrightarrow> worker_step f i s = None"
  by (simp add: worker_step_def Let_def)

lemma restore_step_MAdd:
  "mpc s = MAdd \<Longrightarrow>
   restore_step repos s =
     (if wg s + int (length repos) < 0 then panic s
      else Some (s\<lparr>wg := wg s + int (length repos), mpc := MLoop 0\<rparr>))"
  by (simp add: restore_step_def wg_add_def)

lemma restore_step_MLoop:
  "mpc s = MLoop i \<Longrightarrow>
   restore_step repos s =
     (if i < length repos
      then Some (s\<lparr>tasks := tasks s @ [new_task (repos ! i)], mpc := MLoop (Suc i)\<rparr>)
      else Some (s\<lparr>mpc := MWait\<rparr>))"
  by (simp add: restore_step_def)

lemma restore_step_MWait:
  "mpc s = MWait \<Longrightarrow>
   restore_step repos s = (if wg s = 0 then Some (s\<lparr>mpc := MClose\<rparr>) else None)"
  by (simp add: restore_step_def wg_wait_def)

lemma restore_step_MClose:
  "mpc s = MClose \<Longrightarrow>
   restore_step repos s =
     (if is_closed (errChan s) then panic s
      else Some (s\<lparr>errChan := (errChan s)\<lparr>is_closed := True\<rparr>, mpc := MRecv\<rparr>))"
  by (simp add: restore_step_def chan_close_def)

lemma restore_step_MRecv:
  "mpc s = MRecv \<Longrightarrow>
   restore_step repos s =
     (case buf (errChan s) of
        [] \<Rightarrow> if is_closed (errChan s) then Some (s\<lparr>mpc := MReturned None\<rparr>) else None
      | v # vs \<Rightarrow> Some (s\<lparr>errChan := (errChan s)\<lparr>buf := vs\<rparr>, mpc := MReturned (Some v)\<rparr>))"
  by (simp add: restore_step_def chan_recv_def split: list.splits)

lemma restore_step_MReturned:
  "mpc s = MReturned r \<Longrightarrow> restore_step repos s = None"
  by (simp add: restore_step_def)

section \<open>The invariant is inductive\<close>

lemma inv_start: "restore_inv f n repos (start n)"
  by (simp add: restore_inv_def start_def make_chan_def inv_static_def inv_tasks_def inv_wg_def
      inv_sem_def inv_err_def latch_ok_def gate_count_def exited_def)

lemma exited_less:
  assumes "i < length (tasks s)" "pc (tasks s ! i) \<noteq> WExit"
  shows "exited s < length (tasks s)"
proof -
  have "tasks s ! i \<in> set (tasks s)" using assms(1) by simp
  from length_filter_less [OF this, of "\<lambda>t. pc t = WExit"] assms(2) show ?thesis
    by (simp add: exited_def)
qed

lemma exited_all:
  assumes "exited s = length (tasks s)" "i < length (tasks s)"
  shows "pc (tasks s ! i) = WExit"
  using assms exited_less [of i s] by auto

text \<open>The steps that an invariant state can take: none of them is a panic.\<close>

lemma inv_step_cases [consumes 2, case_names Add Spawn LoopEnd Wait Close Recv Defer Acquire Fetch
    Select Release Return]:
  assumes "restore_inv f n repos s" and "step f repos t s = Some s'"
  obtains
    "t = Main" "mpc s = MAdd" "s' = s\<lparr>wg := int (length repos), mpc := MLoop 0\<rparr>"
  | i where "t = Main" "mpc s = MLoop i" "i < length repos"
      "s' = s\<lparr>tasks := tasks s @ [new_task (repos ! i)], mpc := MLoop (Suc i)\<rparr>"
  | i where "t = Main" "mpc s = MLoop i" "\<not> i < length repos" "s' = s\<lparr>mpc := MWait\<rparr>"
  | "t = Main" "mpc s = MWait" "wg s = 0" "s' = s\<lparr>mpc := MClose\<rparr>"
  | "t = Main" "mpc s = MClose"
      "s' = s\<lparr>errChan := (errChan s)\<lparr>is_closed := True\<rparr>, mpc := MRecv\<rparr>"
  | "t = Main" "mpc s = MRecv" "is_closed (errChan s)"
      "s' = (case buf (errChan s) of
               [] \<Rightarrow> s\<lparr>mpc := MReturned None\<rparr>
             | v # vs \<Rightarrow> s\<lparr>errChan := (errChan s)\<lparr>buf := vs\<rparr>, mpc := MReturned (Some v)\<rparr>)"
  | i where "t = Worker i" "i < length (tasks s)" "pc (tasks s ! i) = WDefer"
      "s' = set_task i ((tasks s ! i)\<lparr>deferred := True, pc := WAcquire\<rparr>) s"
  | i where "t = Worker i" "i < length (tasks s)" "pc (tasks s ! i) = WAcquire"
      "length (buf (sem s)) < capacity (sem s)"
      "s' = set_task i ((tasks s ! i)\<lparr>pc := WFetch, hist := hist (tasks s ! i) @ [Acquired]\<rparr>)
                  (s\<lparr>sem := (sem s)\<lparr>buf := buf (sem s) @ [1]\<rparr>\<rparr>)"
  | i where "t = Worker i" "i < length (tasks s)" "pc (tasks s ! i) = WFetch"
      "s' = set_task i ((tasks s ! i)\<lparr>pc := (case f (repo (tasks s ! i)) of None \<Rightarrow> WRelease | Some e \<Rightarrow> WSelect e),
                          hist := hist (tasks s ! i) @ [Fetched (repo (tasks s ! i))]\<rparr>) s"
  | i e where "t = Worker i" "i < length (tasks s)" "pc (tasks s ! i) = WSelect e"
      "\<not> is_closed (errChan s)"
      "s' = set_task i ((tasks s ! i)\<lparr>pc := WRelease\<rparr>)
                  (s\<lparr>errChan := (if length (buf (errChan s)) < capacity (errChan s)
                                 then (errChan s)\<lparr>buf := buf (errChan s) @ [e]\<rparr>
                                 else errChan s)\<rparr>)"
  | i where "t = Worker i" "i < length (tasks s)" "pc (tasks s ! i) = WRelease"
      "buf (sem s) \<noteq> []"
      "s' = set_task i ((tasks s ! i)\<lparr>pc := WReturn, hist := hist (tasks s ! i) @ [Released]\<rparr>)
                 (s\<lparr>sem := (sem s)\<lparr>buf := tl (buf (sem s))\<rparr>\<rparr>)"
  | i where "t = Worker i" "i < length (tasks s)" "pc (tasks s ! i) = WReturn"
      "deferred (tasks s ! i)" "0 < wg s"
      "s' = set_task i ((tasks s ! i)\<lparr>pc := WExit, deferred := False,
                          hist := hist (tasks s ! i) @ [Signalled]\<rparr>) (s\<lparr>wg := wg s - 1\<rparr>)"
proof -
  from assms(1) have nc: "\<not> crashed s" and st: "inv_static n s" and ta: "inv_tasks f repos s"
    and w: "inv_wg repos s" and se: "inv_sem n s" and er: "inv_err f repos s"
    by (simp_all add: restore_inv_def)
  show thesis
  proof (cases t)
    case Main
    with assms(2) nc have rs: "restore_step repos s = Some s'"
      by (simp add: step_def)
    show ?thesis
    proof (cases "mpc s")
      case MAdd
      with rs w have "s' = s\<lparr>wg := int (length repos), mpc := MLoop 0\<rparr>"
        by (simp add: restore_step_MAdd inv_wg_def)
      with Main MAdd show ?thesis using that(1) by blast
    next
      case (MLoop i)
      with rs Main show ?thesis using that(2) [of i] that(3) [of i]
        by (cases "i < length repos") (simp_all add: restore_step_MLoop)
    next
      case MWait
      with rs Main show ?thesis using that(4)
        by (simp add: restore_step_MWait split: if_splits)
    next
      case MClose
      with er have "\<not> is_closed (errChan s)" by (simp add: inv_err_def)
      with rs Main MClose show ?thesis using that(5)
        by (simp add: restore_step_MClose)
    next
      case MRecv
      with er have "is_closed (errChan s)" by (simp add: inv_err_def)
      with rs Main MRecv show ?thesis using that(6)
        by (cases "buf (errChan s)") (simp_all add: restore_step_MRecv)
    next
      case (MReturned r)
      with rs show ?thesis by (simp add: restore_step_MReturned)
    qed
  next
    case (Worker i)
    with assms(2) nc have ws: "worker_step f i s = Some s'"
      by (simp add: step_def)
    then have i: "i < length (tasks s)"
      by (cases "i < length (tasks s)") (simp_all add: worker_step_none)
    with ta have tok: "task_ok f (tasks s ! i)" by (simp add: inv_tasks_def)
    show ?thesis
    proof (cases "pc (tasks s ! i)")
      case WDefer
      with ws i Worker show ?thesis using that(7) by (simp add: worker_step_WDefer)
    next
      case WAcquire
      with ws i Worker st show ?thesis using that(8) [of i]
        by (simp add: worker_step_WAcquire inv_static_def split: if_splits)
    next
      case WFetch
      with ws i Worker show ?thesis using that(9) [of i] by (simp add: worker_step_WFetch)
    next
      case (WSelect e)
      have "\<not> is_closed (errChan s)"
      proof
        assume "is_closed (errChan s)"
        with er have "receiving (mpc s)" by (simp add: inv_err_def)
        then have "waited (mpc s)" by (cases "mpc s") simp_all
        with w have "exited s = length (tasks s)" by (simp add: inv_wg_def)
        from exited_all [OF this i] WSelect show False by simp
      qed
      with ws i Worker WSelect show ?thesis using that(10) [of i e]
        by (simp add: worker_step_WSelect)
    next
      case WRelease
      with i have "tasks s ! i \<in> set (filter (\<lambda>t. in_gate (pc t)) (tasks s))" by simp
      then have "0 < gate_count s"
        unfolding gate_count_def by (metis length_pos_if_in_set)
      with se have "buf (sem s) \<noteq> []" by (auto simp: inv_sem_def)
      with ws i Worker WRelease show ?thesis using that(11) [of i]
        by (cases "buf (sem s)") (simp_all add: worker_step_WRelease)
    next
      case WReturn
      with tok have d: "deferred (tasks s ! i)" by (simp add: task_ok_def)
      from WReturn i have "exited s < length (tasks s)" by (simp add: exited_less)
      moreover from ta have "length (tasks s) \<le> length repos" and "mpc s \<noteq> MAdd"
        using i by (auto simp: inv_tasks_def split: mpc.splits)
      ultimately have "0 < wg s" using w by (simp add: inv_wg_def)
      with ws i Worker WReturn d show ?thesis using that(12) [of i]
        by (simp add: worker_step_WReturn)
    next
      case WExit
      with ws i show ?thesis by (simp add: worker_step_WExit)
    qed
  qed
qed

lemma set_task_simps [simp]:
  "tasks (set_task i t s) = (tasks s)[i := t]"
  "mpc (set_task i t s) = mpc s"
  "sem (set_task i t s) = sem s"
  "errChan (set_task i t s) = errChan s"
  "wg (set_task i t s) = wg s"
  "crashed (set_task i t s) = crashed s"
  by (simp_all add: set_task_def)

lemma exited_update:
  assumes "tasks s' = (tasks s)[i := t]" "i < length (tasks s)"
  shows "int (exited s') = int (exited s) - of_bool (pc (tasks s ! i) = WExit) + of_bool (pc t = WExit)"
  using assms count_filter_update [of i "tasks s" "\<lambda>t. pc t = WExit" t]
  by (simp add: exited_def)

lemma gate_count_update:
  assumes "tasks s' = (tasks s)[i := t]" "i < length (tasks s)"
  shows "int (gate_count s') =
         int (gate_count s) - of_bool (in_gate (pc (tasks s ! i))) + of_bool (in_gate (pc t))"
  using assms count_filter_update [of i "tasks s" "\<lambda>t. in_gate (pc t)" t]
  by (simp add: gate_count_def)

lemma exited_same: "tasks s' = tasks s \<Longrightarrow> exited s' = exited s"
  by (simp add: exited_def)

lemma gate_count_same: "tasks s' = tasks s \<Longrightarrow> gate_count s' = gate_count s"
  by (simp add: gate_count_def)

lemma inv_static_step:
  assumes "restore_inv f n repos s" and "step f repos t s = Some s'"
  shows "inv_static n s'"
proof -
  from assms(1) have "inv_static n s" by (simp add: restore_inv_def)
  with assms show ?thesis
    by (cases rule: inv_step_cases) (simp_all add: inv_static_def split: list.splits)
qed

lemma not_crashed_step:
  assumes "restore_inv f n repos s" and "step f repos t s = Some s'"
  shows "\<not> crashed s'"
proof -
  from assms(1) have "\<not> crashed s" by (simp add: restore_inv_def)
  with assms show ?thesis
    by (cases rule: inv_step_cases) (simp_all split: list.splits)
qed

lemma inv_tasks_set_task:
  assumes "inv_tasks f repos s" "i < length (tasks s)" "task_ok f t'"
    "repo t' = repo (tasks s ! i)" "tasks s' = (tasks s)[i := t']" "mpc s' = mpc s"
  shows "inv_tasks f repos s'"
  using assms by (auto simp: inv_tasks_def nth_list_update split: mpc.splits)

lemma inv_tasks_same:
  assumes "inv_tasks f repos s" "tasks s' = tasks s" "mpc s' = mpc s"
  shows "inv_tasks f repos s'"
  using assms by (simp add: inv_tasks_def split: mpc.splits)

lemma inv_tasks_step:
  assumes "restore_inv f n repos s" and "step f repos t s = Some s'"
  shows "inv_tasks f repos s'"
proof -
  from assms(1) have ta: "inv_tasks f repos s" by (simp add: restore_inv_def)
  from assms show ?thesis
  proof (cases rule: inv_step_cases)
    case Add
    with ta show ?thesis by (simp add: inv_tasks_def)
  next
    case (Spawn i)
    with ta show ?thesis
      by (auto simp: inv_tasks_def nth_append new_task_def task_ok_def expected_hist_def
          less_Suc_eq)
  next
    case (LoopEnd i)
    with ta show ?thesis by (simp add: inv_tasks_def)
  next
    case Wait
    with ta show ?thesis by (simp add: inv_tasks_def)
  next
    case Close
    with ta show ?thesis by (simp add: inv_tasks_def)
  next
    case Recv
    with ta show ?thesis by (simp add: inv_tasks_def split: list.splits)
  next
    case (Defer i)
    with ta have "task_ok f (tasks s ! i)" by (simp add: inv_tasks_def)
    with Defer have "task_ok f ((tasks s ! i)\<lparr>deferred := True, pc := WAcquire\<rparr>)"
      by (simp add: task_ok_def expected_hist_def)
    from inv_tasks_set_task [OF ta Defer(2) this] Defer(4) show ?thesis by simp
  next
    case (Acquire i)
    with ta have "task_ok f (tasks s ! i)" by (simp add: inv_tasks_def)
    with Acquire have "task_ok f ((tasks s ! i)\<lparr>pc := WFetch, hist := hist (tasks s ! i) @ [Acquired]\<rparr>)"
      by (simp add: task_ok_def expected_hist_def)
    from inv_tasks_set_task [OF ta Acquire(2) this] Acquire(5) show ?thesis by simp
  next
    case (Fetch i)
    with ta have "task_ok f (tasks s ! i)" by (simp add: inv_tasks_def)
    with Fetch have "task_ok f ((tasks s ! i)\<lparr>pc := (case f (repo (tasks s ! i)) of None \<Rightarrow> WRelease | Some e \<Rightarrow> WSelect e),
                          hist := hist (tasks s ! i) @ [Fetched (repo (tasks s ! i))]\<rparr>)"
      by (simp add: task_ok_def expected_hist_def split: option.splits)
    from inv_tasks_set_task [OF ta Fetch(2) this] Fetch(4) show ?thesis by simp
  next
    case (Select i e)
    with ta have "task_ok f (tasks s ! i)" by (simp add: inv_tasks_def)
    with Select have "task_ok f ((tasks s ! i)\<lparr>pc := WRelease\<rparr>)"
      by (simp add: task_ok_def expected_hist_def)
    from inv_tasks_set_task [OF ta Select(2) this] Select(5) show ?thesis by simp
  next
    case (Release i)
    with ta have "task_ok f (tasks s ! i)" by (simp add: inv_tasks_def)
    with Release have "task_ok f ((tasks s ! i)\<lparr>pc := WReturn, hist := hist (tasks s ! i) @ [Released]\<rparr>)"
      by (simp add: task_ok_def expected_hist_def)
    from inv_tasks_set_task [OF ta Release(2) this] Release(5) show ?thesis by simp
  next
    case (Return i)
    with ta have "task_ok f (tasks s ! i)" by (simp add: inv_tasks_def)
    with Return have "task_ok f ((tasks s ! i)\<lparr>pc := WExit, deferred := False,
                          hist := hist (tasks s ! i) @ [Signalled]\<rparr>)"
      by (simp add: task_ok_def expected_hist_def)
    from inv_tasks_set_task [OF ta Return(2) this] Return(6) show ?thesis by simp
  qed
qed

lemma exited_append: "exited (s\<lparr>tasks := tasks s @ [new_task r], mpc := m\<rparr>) = exited s"
  by (simp add: exited_def new_task_def)

lemma gate_count_append: "gate_count (s\<lparr>tasks := tasks s @ [new_task r], mpc := m\<rparr>) = gate_count s"
  by (simp add: gate_count_def new_task_def)

lemma inv_wg_step:
  assumes "restore_inv f n repos s" and "step f repos t s = Some s'"
  shows "inv_wg repos s'"
proof -
  from assms(1) have w: "inv_wg repos s" and ta: "inv_tasks f repos s"
    by (simp_all add: restore_inv_def)
  have worker: "inv_wg repos s'"
    if i: "i < length (tasks s)" and old: "pc (tasks s ! i) \<noteq> WExit"
      and cnt: "wg s' = wg s - of_bool (pc t' = WExit)"
      and new: "mpc s' = mpc s" "tasks s' = (tasks s)[i := t']" for i t'
  proof -
    from exited_update [OF new(2) i] old
    have e: "int (exited s') = int (exited s) + of_bool (pc t' = WExit)" by simp
    from exited_less [OF i old] w have nw: "\<not> waited (mpc s)" by (auto simp: inv_wg_def)
    from ta i have "mpc s \<noteq> MAdd" by (auto simp: inv_tasks_def)
    with w e nw new(1) cnt show ?thesis by (simp add: inv_wg_def)
  qed
  from assms show ?thesis
  proof (cases rule: inv_step_cases)
    case Add
    with w ta show ?thesis by (simp add: inv_wg_def inv_tasks_def exited_def)
  next
    case (Spawn i)
    with w show ?thesis by (simp add: inv_wg_def exited_append)
  next
    case (LoopEnd i)
    with w show ?thesis by (simp add: inv_wg_def exited_def)
  next
    case Wait
    with w ta show ?thesis by (simp add: inv_wg_def inv_tasks_def exited_def)
  next
    case Close
    with w show ?thesis by (simp add: inv_wg_def exited_def)
  next
    case Recv
    with w show ?thesis by (simp add: inv_wg_def exited_def split: list.splits)
  next
    case (Defer i)
    then show ?thesis by (intro worker [of i]) simp_all
  next
    case (Acquire i)
    then show ?thesis by (intro worker [of i]) simp_all
  next
    case (Fetch i)
    then show ?thesis by (intro worker [of i]) (simp_all split: option.splits)
  next
    case (Select i e)
    then show ?thesis by (intro worker [of i]) simp_all
  next
    case (Release i)
    then show ?thesis by (intro worker [of i]) simp_all
  next
    case (Return i)
    then show ?thesis by (intro worker [of i]) simp_all
  qed
qed

lemma inv_sem_step:
  assumes "restore_inv f n repos s" and "step f repos t s = Some s'"
  shows "inv_sem n s'"
proof -
  from assms(1) have se: "inv_sem n s" and st: "inv_static n s"
    by (simp_all add: restore_inv_def)
  have same: "inv_sem n s'"
    if "i < length (tasks s)" "in_gate (pc t') = in_gate (pc (tasks s ! i))" "sem s' = sem s"
      "tasks s' = (tasks s)[i := t']" for i t'
  proof -
    from gate_count_update [OF that(4) that(1)] that(2)
    have "gate_count s' = gate_count s" by simp
    with se that(3) show ?thesis by (simp add: inv_sem_def)
  qed
  from assms show ?thesis
  proof (cases rule: inv_step_cases)
    case Add
    with se show ?thesis by (simp add: inv_sem_def gate_count_def)
  next
    case (Spawn i)
    with se show ?thesis by (simp add: inv_sem_def gate_count_append)
  next
    case (LoopEnd i)
    with se show ?thesis by (simp add: inv_sem_def gate_count_def)
  next
    case Wait
    with se show ?thesis by (simp add: inv_sem_def gate_count_def)
  next
    case Close
    with se show ?thesis by (simp add: inv_sem_def gate_count_def)
  next
    case Recv
    with se show ?thesis by (simp add: inv_sem_def gate_count_def split: list.splits)
  next
    case (Defer i)
    then show ?thesis by (intro same [of i]) simp_all
  next
    case (Acquire i)
    let ?t = "(tasks s ! i)\<lparr>pc := WFetch, hist := hist (tasks s ! i) @ [Acquired]\<rparr>"
    from Acquire(5) have "tasks s' = (tasks s)[i := ?t]" by simp
    from gate_count_update [OF this Acquire(2)] Acquire(3)
    have "gate_count s' = Suc (gate_count s)" by simp
    moreover from se st Acquire(4) have "gate_count s < n"
      by (simp add: inv_sem_def inv_static_def)
    ultimately show ?thesis using se Acquire(5)
      by (simp add: inv_sem_def replicate_append_same)
  next
    case (Fetch i)
    then show ?thesis by (intro same [of i]) (simp_all split: option.splits)
  next
    case (Select i e)
    then show ?thesis by (intro same [of i]) simp_all
  next
    case (Release i)
    let ?t = "(tasks s ! i)\<lparr>pc := WReturn, hist := hist (tasks s ! i) @ [Released]\<rparr>"
    from Release(5) have "tasks s' = (tasks s)[i := ?t]" by simp
    from gate_count_update [OF this Release(2)] Release(3)
    have "Suc (gate_count s') = gate_count s" by simp
    with se Release(5) show ?thesis
      by (auto simp: inv_sem_def)
  next
    case (Return i)
    then show ?thesis by (intro same [of i]) simp_all
  qed
qed

lemma inv_err_worker:
  assumes er: "inv_err f repos s" and nr: "\<not> receiving (mpc s)"
    and i: "i < length (tasks s)"
    and new: "buf (errChan s) = [] \<Longrightarrow> after_select (pc t') \<Longrightarrow> f (repo t') = None"
    and same: "errChan s' = errChan s" "mpc s' = mpc s" "tasks s' = (tasks s)[i := t']"
  shows "inv_err f repos s'"
proof -
  from nr have m: "\<And>r. mpc s \<noteq> MReturned r" by auto
  show ?thesis
  proof (cases "buf (errChan s)")
    case Nil
    with er m new same i show ?thesis
      by (cases "mpc s") (auto simp: inv_err_def latch_ok_def nth_list_update)
  next
    case (Cons e es)
    with er m same show ?thesis
      by (cases "mpc s") (auto simp: inv_err_def latch_ok_def split: list.splits)
  qed
qed

lemma inv_err_step:
  assumes "restore_inv f n repos s" and "step f repos t s = Some s'"
  shows "inv_err f repos s'"
proof -
  from assms(1) have er: "inv_err f repos s" and ta: "inv_tasks f repos s"
    and w: "inv_wg repos s" and st: "inv_static n s"
    by (simp_all add: restore_inv_def)
  have nr: "\<not> receiving (mpc s)" if "i < length (tasks s)" "pc (tasks s ! i) \<noteq> WExit" for i
  proof
    assume "receiving (mpc s)"
    then have "waited (mpc s)" by (cases "mpc s") simp_all
    with w have "exited s = length (tasks s)" by (simp add: inv_wg_def)
    from exited_all [OF this that(1)] that(2) show False by simp
  qed
  from assms show ?thesis
  proof (cases rule: inv_step_cases)
    case Add
    with er show ?thesis by (simp add: inv_err_def)
  next
    case (Spawn i)
    with er show ?thesis
      by (auto simp: inv_err_def latch_ok_def nth_append new_task_def less_Suc_eq split: list.splits)
  next
    case (LoopEnd i)
    with er show ?thesis by (simp add: inv_err_def)
  next
    case Wait
    with er show ?thesis by (simp add: inv_err_def)
  next
    case Close
    with er show ?thesis by (simp add: inv_err_def)
  next
    case Recv
    show ?thesis
    proof (cases "buf (errChan s)")
      case Nil
      from Recv(2) w have ex: "exited s = length (tasks s)" by (simp add: inv_wg_def)
      from Recv(2) ta have len: "length (tasks s) = length repos" by (simp add: inv_tasks_def)
      have "f x = None" if "x \<in> set repos" for x
      proof -
        from that obtain i where i: "i < length repos" "x = repos ! i"
          by (auto simp: in_set_conv_nth)
        with len ex have "pc (tasks s ! i) = WExit" by (simp add: exited_all)
        moreover from ta i len have "repo (tasks s ! i) = x" by (simp add: inv_tasks_def)
        ultimately show ?thesis using er Nil Recv(2) i len by (auto simp: inv_err_def latch_ok_def)
      qed
      with Recv Nil er show ?thesis by (simp add: inv_err_def result_ok_def)
    next
      case (Cons e es)
      with Recv er show ?thesis by (auto simp: inv_err_def latch_ok_def result_ok_def split: list.splits)
    qed
  next
    case (Defer i)
    then show ?thesis by (intro inv_err_worker [OF er nr [of i], of i]) simp_all
  next
    case (Acquire i)
    then show ?thesis by (intro inv_err_worker [OF er nr [of i], of i]) simp_all
  next
    case (Fetch i)
    then show ?thesis
      by (intro inv_err_worker [OF er nr [of i], of i]) (simp_all split: option.splits)
  next
    case (Select i e)
    from ta Select have fe: "f (repo (tasks s ! i)) = Some e" and r: "repo (tasks s ! i) = repos ! i"
      by (auto simp: inv_tasks_def task_ok_def)
    from ta Select(2) have "i < length repos" by (auto simp: inv_tasks_def split: mpc.splits)
    with r have "repo (tasks s ! i) \<in> set repos" by simp
    with fe have ex: "\<exists>x \<in> set repos. f x = Some e" by blast
    from nr [of i] Select have "\<not> receiving (mpc s)" by simp
    then have m: "\<And>r. mpc s \<noteq> MReturned r" by auto
    show ?thesis
    proof (cases "buf (errChan s)")
      case Nil
      with er m ex st Select show ?thesis
        by (cases "mpc s") (auto simp: inv_err_def latch_ok_def inv_static_def)
    next
      case (Cons e' es)
      with er m st Select show ?thesis
        by (cases "mpc s") (auto simp: inv_err_def latch_ok_def inv_static_def nth_list_update split: list.splits)
    qed
  next
    case (Release i)
    with er have "buf (errChan s) = [] \<Longrightarrow> f (repo (tasks s ! i)) = None"
      using nr [of i] by (cases "mpc s") (auto simp: inv_err_def latch_ok_def)
    with Release show ?thesis by (intro inv_err_worker [OF er nr [of i], of i]) simp_all
  next
    case (Return i)
    with er have "buf (errChan s) = [] \<Longrightarrow> f (repo (tasks s ! i)) = None"
      using nr [of i] by (cases "mpc s") (auto simp: inv_err_def latch_ok_def)
    with Return show ?thesis by (intro inv_err_worker [OF er nr [of i], of i]) simp_all
  qed
qed

lemma inv_step:
  assumes "restore_inv f n repos s" and "step f repos t s = Some s'"
  shows "restore_inv f n repos s'"
  using not_crashed_step [OF assms] inv_static_step [OF assms] inv_tasks_step [OF assms]
    inv_wg_step [OF assms] inv_sem_step [OF assms] inv_err_step [OF assms]
  by (simp add: restore_inv_def)

lemma inv_run: "restore_inv f n repos s \<Longrightarrow> restore_inv f n repos (run f repos sched s)"
proof (induction sched arbitrary: s)
  case Nil
  then show ?case by simp
next
  case (Cons t ts)
  show ?case
  proof (cases "step f repos t s")
    case None
    with Cons show ?thesis by simp
  next
    case (Some s')
    from inv_step [OF Cons.prems Some] have "restore_inv f n repos s'" .
    with Cons.IH Some show ?thesis by simp
  qed
qed

lemma inv_reachable: "restore_inv f n repos (run f repos sched (start n))"
  by (rule inv_run [OF inv_start])

section \<open>Termination and progress\<close>

lemma sum_list_update_less:
  "i < length xs \<Longrightarrow> g y < g (xs ! i) \<Longrightarrow>
   sum_list (map g (xs[i := y])) < (sum_list (map g xs) :: nat)"
proof (induction xs arbitrary: i)
  case Nil
  then show ?case by simp
next
  case (Cons x xs)
  then show ?case by (cases i) auto
qed

lemma remaining_worker:
  assumes "i < length (tasks s)" "task_left (pc t') < task_left (pc (tasks s ! i))"
    "mpc s' = mpc s" "tasks s' = (tasks s)[i := t']"
  shows "remaining repos s' < remaining repos s"
  using assms sum_list_update_less [of i "tasks s" "\<lambda>t. task_left (pc t)" t']
  by (simp add: remaining_def)

lemma remaining_step:
  assumes "restore_inv f n repos s" and "step f repos t s = Some s'"
  shows "remaining repos s' < remaining repos s"
  using assms
proof (cases rule: inv_step_cases)
  case Add
  then show ?thesis by (simp add: remaining_def)
next
  case (Spawn i)
  then show ?thesis by (simp add: remaining_def new_task_def Suc_diff_Suc)
next
  case (LoopEnd i)
  then show ?thesis by (simp add: remaining_def)
next
  case Wait
  then show ?thesis by (simp add: remaining_def)
next
  case Close
  then show ?thesis by (simp add: remaining_def)
next
  case Recv
  then show ?thesis by (simp add: remaining_def split: list.splits)
next
  case (Defer i)
  then show ?thesis by (intro remaining_worker [of i]) simp_all
next
  case (Acquire i)
  then show ?thesis by (intro remaining_worker [of i]) simp_all
next
  case (Fetch i)
  then show ?thesis by (intro remaining_worker [of i]) (simp_all split: option.splits)
next
  case (Select i e)
  then show ?thesis by (intro remaining_worker [of i]) simp_all
next
  case (Release i)
  then show ?thesis by (intro remaining_worker [of i]) simp_all
next
  case (Return i)
  then show ?thesis by (intro remaining_worker [of i]) simp_all
qed

lemma moves_remaining:
  "restore_inv f n repos s \<Longrightarrow>
   moves f repos sched s + remaining repos (run f repos sched s) \<le> remaining repos s"
proof (induction sched arbitrary: s)
  case Nil
  then show ?case by simp
next
  case (Cons t ts)
  show ?case
  proof (cases "step f repos t s")
    case None
    with Cons show ?thesis by simp
  next
    case (Some s')
    from inv_step [OF Cons.prems Some] have "restore_inv f n repos s'" .
    from Cons.IH [OF this] remaining_step [OF Cons.prems Some] Some show ?thesis by simp
  qed
qed

lemma remaining_start: "remaining repos (start n) = 7 * length repos + 5"
  by (simp add: remaining_def start_def)

lemma moves_bounded: "moves f repos sched (start n) \<le> 7 * length repos + 5"
  using moves_remaining [OF inv_start [of f n repos], of sched]
  by (simp add: remaining_start)

lemma can_move_Main: "step f repos Main s \<noteq> None \<Longrightarrow> can_move f repos s"
  by (simp add: can_move_def threads_def)

lemma can_move_Worker:
  "i < length (tasks s) \<Longrightarrow> step f repos (Worker i) s \<noteq> None \<Longrightarrow> can_move f repos s"
  by (auto simp: can_move_def threads_def list_ex_iff)

lemma worker_enabled:
  assumes "restore_inv f n repos s" "1 \<le> n" "i < length (tasks s)"
    and "pc (tasks s ! i) = WAcquire \<longrightarrow> gate_count s < n"
    and "pc (tasks s ! i) \<noteq> WExit"
  shows "step f repos (Worker i) s \<noteq> None"
proof -
  from assms(1) have nc: "\<not> crashed s" and st: "inv_static n s" and se: "inv_sem n s"
    by (simp_all add: restore_inv_def)
  show ?thesis
  proof (cases "pc (tasks s ! i)")
    case WDefer
    with assms(3) nc show ?thesis by (simp add: step_def worker_step_WDefer)
  next
    case WAcquire
    with assms(4) se st have "length (buf (sem s)) < capacity (sem s)"
      by (simp add: inv_sem_def inv_static_def)
    with WAcquire assms(3) nc show ?thesis
      by (simp add: step_def worker_step_WAcquire panic_def)
  next
    case WFetch
    with assms(3) nc show ?thesis by (simp add: step_def worker_step_WFetch)
  next
    case (WSelect e)
    with assms(3) nc show ?thesis by (simp add: step_def worker_step_WSelect panic_def)
  next
    case WRelease
    with assms(3) have "tasks s ! i \<in> set (filter (\<lambda>t. in_gate (pc t)) (tasks s))" by simp
    then have "0 < gate_count s"
      unfolding gate_count_def by (metis length_pos_if_in_set)
    with se have "buf (sem s) \<noteq> []" by (auto simp: inv_sem_def)
    with WRelease assms(3) nc show ?thesis
      by (cases "buf (sem s)") (simp_all add: step_def worker_step_WRelease)
  next
    case WReturn
    with assms(3) nc show ?thesis by (simp add: step_def worker_step_WReturn panic_def)
  next
    case WExit
    with assms(5) show ?thesis by simp
  qed
qed

lemma progress:
  assumes "restore_inv f n repos s" "1 \<le> n" "returned s = None"
  shows "can_move f repos s"
proof -
  from assms(1) have nc: "\<not> crashed s" and ta: "inv_tasks f repos s" and w: "inv_wg repos s"
    and er: "inv_err f repos s"
    by (simp_all add: restore_inv_def)
  show ?thesis
  proof (cases "mpc s")
    case MAdd
    with nc show ?thesis
      by (intro can_move_Main) (simp add: step_def restore_step_MAdd panic_def)
  next
    case (MLoop i)
    with nc show ?thesis
      by (intro can_move_Main) (simp add: step_def restore_step_MLoop)
  next
    case MWait
    show ?thesis
    proof (cases "wg s = 0")
      case True
      with MWait nc show ?thesis
        by (intro can_move_Main) (simp add: step_def restore_step_MWait)
    next
      case False
      with MWait w ta have "exited s \<noteq> length (tasks s)"
        by (simp add: inv_wg_def inv_tasks_def)
      have "\<not> (\<forall>t \<in> set (tasks s). pc t = WExit)"
      proof
        assume "\<forall>t \<in> set (tasks s). pc t = WExit"
        then have "filter (\<lambda>t. pc t = WExit) (tasks s) = tasks s"
          by (simp add: filter_id_conv)
        with \<open>exited s \<noteq> length (tasks s)\<close> show False by (simp add: exited_def)
      qed
      then obtain t where "t \<in> set (tasks s)" "pc t \<noteq> WExit" by blast
      then obtain i where i: "i < length (tasks s)" "pc (tasks s ! i) \<noteq> WExit"
        by (auto simp: in_set_conv_nth)
      show ?thesis
      proof (cases "gate_count s = 0")
        case True
        with assms(2) have "gate_count s < n" by simp
        then have "step f repos (Worker i) s \<noteq> None"
          using i by (intro worker_enabled [OF assms(1,2)]) simp_all
        with i(1) show ?thesis by (rule can_move_Worker)
      next
        case False
        then have "filter (\<lambda>t. in_gate (pc t)) (tasks s) \<noteq> []"
          by (simp add: gate_count_def)
        then obtain t where "t \<in> set (tasks s)" "in_gate (pc t)"
          by (auto simp: filter_empty_conv)
        then obtain j where j: "j < length (tasks s)" "in_gate (pc (tasks s ! j))"
          by (auto simp: in_set_conv_nth)
        then have "pc (tasks s ! j) \<noteq> WAcquire" "pc (tasks s ! j) \<noteq> WExit" by auto
        then have "step f repos (Worker j) s \<noteq> None"
          using j(1) by (intro worker_enabled [OF assms(1,2)]) simp_all
        with j(1) show ?thesis by (rule can_move_Worker)
      qed
    qed
  next
    case MClose
    with nc show ?thesis
      by (intro can_move_Main) (simp add: step_def restore_step_MClose panic_def)
  next
    case MRecv
    with er have "is_closed (errChan s)" by (simp add: inv_err_def)
    with MRecv nc show ?thesis
      by (intro can_move_Main) (simp add: step_def restore_step_MRecv split: list.splits)
  next
    case (MReturned r)
    with assms(3) show ?thesis by (simp add: returned_def)
  qed
qed

lemma returned_quiescent:
  assumes "restore_inv f n repos s" "returned s \<noteq> None"
  shows "\<not> can_move f repos s"
proof -
  from assms(2) obtain r where m: "mpc s = MReturned r"
    by (auto simp: returned_def split: mpc.splits)
  from assms(1) have w: "inv_wg repos s" by (simp add: restore_inv_def)
  with m have ex: "exited s = length (tasks s)" by (simp add: inv_wg_def)
  have "step f repos t s = None" for t
  proof (cases t)
    case Main
    with m show ?thesis by (simp add: step_def restore_step_MReturned)
  next
    case (Worker i)
    show ?thesis
    proof (cases "i < length (tasks s)")
      case True
      with exited_all [OF ex True] Worker show ?thesis
        by (simp add: step_def worker_step_WExit)
    next
      case False
      with Worker show ?thesis by (simp add: step_def worker_step_none)
    qed
  qed
  then show ?thesis by (simp add: can_move_def list_ex_iff)
qed

section \<open>What the invariant says about a call\<close>

lemma inv_restore: "restore_inv f n repos (restore f n repos sched)"
  unfolding restore_def by (rule inv_reachable)

lemma task_ok_nth:
  "restore_inv f n repos s \<Longrightarrow> i < length (tasks s) \<Longrightarrow> task_ok f (tasks s ! i)"
  by (simp add: restore_inv_def inv_tasks_def)

lemma task_ok_set:
  "restore_inv f n repos s \<Longrightarrow> t \<in> set (tasks s) \<Longrightarrow> task_ok f t"
  by (auto simp: in_set_conv_nth task_ok_nth)

lemma holding_iff: "task_ok f t \<Longrightarrow> holding t = in_gate (pc t)"
  by (cases "pc t") (simp_all add: task_ok_def expected_hist_def holding_def)

lemma holders_gate_count: "restore_inv f n repos s \<Longrightarrow> holders s = gate_count s"
proof -
  assume i: "restore_inv f n repos s"
  have "filter holding (tasks s) = filter (\<lambda>t. in_gate (pc t)) (tasks s)"
    by (rule filter_cong [OF refl]) (use i in \<open>simp add: holding_iff [OF task_ok_set]\<close>)
  then show ?thesis by (simp add: holders_def gate_count_def)
qed

lemma hist_prefix: "task_ok f t \<Longrightarrow> prefix (hist t) (task_order (repo t))"
  by (cases "pc t") (simp_all add: task_ok_def expected_hist_def task_order_def)

lemma latch_size: "restore_inv f n repos s \<Longrightarrow> length (buf (errChan s)) \<le> 1"
  by (cases "mpc s") (auto simp: restore_inv_def inv_err_def latch_ok_def split: list.splits)

lemma returned_result:
  "restore_inv f n repos s \<Longrightarrow> returned s = Some r \<Longrightarrow> result_ok f repos r"
  by (auto simp: restore_inv_def inv_err_def returned_def split: mpc.splits)

lemma select_step:
  assumes "restore_inv f n repos s" "i < length (tasks s)" "pc (tasks s ! i) = WSelect e"
  shows "\<exists>s'. step f repos (Worker i) s = Some s' \<and> \<not> crashed s' \<and>
           buf (errChan s') = (if buf (errChan s) = [] then [e] else buf (errChan s))"
proof -
  from assms(1) have nc: "\<not> crashed s" and st: "inv_static n s" and w: "inv_wg repos s"
    and er: "inv_err f repos s"
    by (simp_all add: restore_inv_def)
  have cl: "\<not> is_closed (errChan s)"
  proof
    assume "is_closed (errChan s)"
    with er have "receiving (mpc s)" by (simp add: inv_err_def)
    then have "waited (mpc s)" by (cases "mpc s") simp_all
    with w have "exited s = length (tasks s)" by (simp add: inv_wg_def)
    from exited_all [OF this assms(2)] assms(3) show False by simp
  qed
  from latch_size [OF assms(1)] have "length (buf (errChan s)) \<le> 1" .
  with st have "(length (buf (errChan s)) < capacity (errChan s)) = (buf (errChan s) = [])"
    by (cases "buf (errChan s)") (simp_all add: inv_static_def)
  with assms(2,3) nc cl show ?thesis
    by (simp add: step_def worker_step_WSelect)
qed

subsection \<open>Round-robin scheduling leads to the return\<close>

text \<open>
  From every state that a schedule can reach, scheduling \<open>restore\<close> and every
  goroutine in turn makes \<open>restore\<close> return, after at most \<open>7 * length repos + 5\<close>
  rounds.
\<close>

lemma tasks_bound:
  "restore_inv f n repos s \<Longrightarrow> length (tasks s) \<le> length repos"
  by (cases "mpc s") (simp_all add: restore_inv_def inv_tasks_def)

lemma run_append: "run f repos (a @ b) s = run f repos b (run f repos a s)"
  by (induction a arbitrary: s) simp_all

lemma moves_positive:
  "t \<in> set ts \<Longrightarrow> step f repos t s \<noteq> None \<Longrightarrow> 0 < moves f repos ts s"
proof (induction ts)
  case Nil
  then show ?case by simp
next
  case (Cons u us)
  show ?case
  proof (cases "step f repos u s")
    case None
    with Cons show ?thesis by auto
  next
    case (Some s')
    then show ?thesis by simp
  qed
qed

lemma remaining_zero:
  "remaining repos s = 0 \<Longrightarrow> returned s \<noteq> None"
  by (cases "mpc s") (simp_all add: remaining_def returned_def)

lemma run_returned:
  assumes "restore_inv f n repos s" "returned s \<noteq> None"
  shows "run f repos ts s = s"
proof (induction ts)
  case Nil
  then show ?case by simp
next
  case (Cons t ts)
  from returned_quiescent [OF assms] have "step f repos t s = None"
  proof (cases t)
    case Main
    with assms(2) show ?thesis
      by (auto simp: step_def returned_def restore_step_MReturned split: mpc.splits)
  next
    case (Worker i)
    show ?thesis
    proof (cases "i < length (tasks s)")
      case True
      with returned_quiescent [OF assms] Worker show ?thesis
        by (auto simp: can_move_def threads_def list_ex_iff)
    next
      case False
      with Worker show ?thesis by (simp add: step_def worker_step_none)
    qed
  qed
  with Cons show ?case by simp
qed

lemma round_progress:
  assumes "restore_inv f n repos s" "1 \<le> n" "returned s = None"
  shows "remaining repos (run f repos (Main # map Worker [0..<length repos]) s) < remaining repos s"
proof -
  from progress [OF assms] obtain t where t: "t \<in> set (threads s)" "step f repos t s \<noteq> None"
    by (auto simp: can_move_def list_ex_iff)
  from t(1) tasks_bound [OF assms(1)] have "t \<in> set (Main # map Worker [0..<length repos])"
    by (auto simp: threads_def)
  from moves_positive [OF this t(2)] moves_remaining [OF assms(1), of "Main # map Worker [0..<length repos]"]
  show ?thesis by simp
qed

lemma rounds_return:
  assumes "1 \<le> n"
  shows "restore_inv f n repos s \<Longrightarrow> remaining repos s \<le> r \<Longrightarrow>
         returned (run f repos (round_robin (length repos) r) s) \<noteq> None"
proof (induction r arbitrary: s)
  case 0
  then show ?case by (simp add: round_robin_def remaining_zero)
next
  case (Suc r)
  let ?round = "Main # map Worker [0..<length repos]"
  have rr: "round_robin (length repos) (Suc r) = ?round @ round_robin (length repos) r"
    by (simp add: round_robin_def)
  from inv_run [OF Suc.prems(1)] have i': "restore_inv f n repos (run f repos ?round s)" .
  show ?case
  proof (cases "returned s")
    case None
    from round_progress [OF Suc.prems(1) assms None] Suc.prems(2)
    have "remaining repos (run f repos ?round s) \<le> r" by simp
    from Suc.IH [OF i' this] show ?thesis unfolding rr run_append .
  next
    case (Some v)
    then have "returned s \<noteq> None" by simp
    from run_returned [OF Suc.prems(1) this] this show ?thesis by simp
  qed
qed

lemma round_robin_returns:
  assumes "1 \<le> n"
  shows "returned (restore f n repos (sched @ round_robin (length repos) (7 * length repos + 5))) \<noteq> None"
proof -
  have i: "restore_inv f n repos (restore f n repos sched)" by (rule inv_restore)
  from moves_remaining [OF inv_start [of f n repos], of sched]
  have "remaining repos (restore f n repos sched) \<le> 7 * length repos + 5"
    by (simp add: restore_def remaining_start)
  from rounds_return [OF assms i this] show ?thesis
    by (simp add: restore_def run_append)
qed

section \<open>Properties of \<open>restore\<close>\<close>

text \<open>
  C1. For every input list and every capacity \<open>n \<ge> 1\<close>, when two or more work calls fail:
  no goroutine panics; as long as \<open>restore\<close> has not returned some goroutine can take a
  step (no deadlock); no schedule takes more than \<open>7 * length repos + 5\<close> steps, and after
  any schedule, scheduling all goroutines in turn makes \<open>restore\<close> return, so the call
  completes; what \<open>restore\<close> returns is one error \<open>e\<close> that some work call produced;
  and the store at the \<open>select\<close> never blocks: it puts the error into the empty
  \<open>errChan\<close> and leaves an occupied one as it is, discarding the error.
\<close>

theorem restore_reports_one_failure:
  assumes "1 \<le> n" and "2 \<le> length (filter (\<lambda>r. f r \<noteq> None) repos)"
  shows "\<not> crashed (restore f n repos sched) \<and>
    (returned (restore f n repos sched) = None \<longrightarrow> can_move f repos (restore f n repos sched)) \<and>
    moves f repos sched (start n) \<le> 7 * length repos + 5 \<and>
    returned (restore f n repos (sched @ round_robin (length repos) (7 * length repos + 5))) \<noteq> None \<and>
    (\<forall>r. returned (restore f n repos sched) = Some r \<longrightarrow>
         (\<exists>e. r = Some e \<and> (\<exists>x \<in> set repos. f x = Some e))) \<and>
    (i < length (tasks (restore f n repos sched)) \<and>
     pc (tasks (restore f n repos sched) ! i) = WSelect e \<longrightarrow>
       (\<exists>s'. step f repos (Worker i) (restore f n repos sched) = Some s' \<and> \<not> crashed s' \<and>
          buf (errChan s') =
            (if buf (errChan (restore f n repos sched)) = [] then [e]
             else buf (errChan (restore f n repos sched)))))"
proof -
  let ?s = "restore f n repos sched"
  have i: "restore_inv f n repos ?s" by (rule inv_restore)
  from assms(2) have "filter (\<lambda>r. f r \<noteq> None) repos \<noteq> []" by auto
  then obtain x where x: "x \<in> set repos" "f x \<noteq> None"
    by (auto simp: filter_empty_conv)
  have res: "\<exists>e. r = Some e \<and> (\<exists>x \<in> set repos. f x = Some e)" if "returned ?s = Some r" for r
    using returned_result [OF i that] x by (cases r) (auto simp: result_ok_def)
  from i have "\<not> crashed ?s" by (simp add: restore_inv_def)
  moreover have "returned ?s = None \<longrightarrow> can_move f repos ?s"
    using progress [OF i assms(1)] by blast
  moreover have "moves f repos sched (start n) \<le> 7 * length repos + 5"
    by (rule moves_bounded)
  moreover have "returned (restore f n repos
      (sched @ round_robin (length repos) (7 * length repos + 5))) \<noteq> None"
    by (rule round_robin_returns [OF assms(1)])
  ultimately show ?thesis using res select_step [OF i, of i e] by blast
qed

theorem restore_reports_one_failure_witness:
  "1 \<le> (4::nat) \<and> 2 \<le> length (filter (\<lambda>r. failing_on main_repos r \<noteq> None) main_repos) \<and>
   returned (restore (failing_on main_repos) 4 main_repos (round_robin 5 16)) =
     Some (Some ''cannot fetch fatih/vim-go'') \<and>
   buf (errChan (restore (failing_on main_repos) 4 main_repos two_failures)) =
     [''cannot fetch fatih/vim-go''] \<and>
   pc (tasks (restore (failing_on main_repos) 4 main_repos two_failures) ! 1) =
     WSelect ''cannot fetch pkg/errors'' \<and>
   (\<exists>s'. step (failing_on main_repos) main_repos (Worker 1)
           (restore (failing_on main_repos) 4 main_repos two_failures) = Some s' \<and>
         buf (errChan s') = [''cannot fetch fatih/vim-go''])"
proof -
  have h1: "1 \<le> (4::nat)" by simp
  have h2: "2 \<le> length (filter (\<lambda>r. failing_on main_repos r \<noteq> None) main_repos)"
    by code_simp
  have r: "returned (restore (failing_on main_repos) 4 main_repos (round_robin 5 16)) =
     Some (Some ''cannot fetch fatih/vim-go'')"
    by code_simp
  have b: "buf (errChan (restore (failing_on main_repos) 4 main_repos two_failures)) =
     [''cannot fetch fatih/vim-go'']"
    by code_simp
  have p: "1 < length (tasks (restore (failing_on main_repos) 4 main_repos two_failures)) \<and>
    pc (tasks (restore (failing_on main_repos) 4 main_repos two_failures) ! 1) =
     WSelect ''cannot fetch pkg/errors''"
    by code_simp
  from restore_reports_one_failure [OF h1 h2, of two_failures 1 "''cannot fetch pkg/errors''"] p b
  have "\<exists>s'. step (failing_on main_repos) main_repos (Worker 1)
           (restore (failing_on main_repos) 4 main_repos two_failures) = Some s' \<and>
         buf (errChan s') = [''cannot fetch fatih/vim-go'']"
    by auto
  with h1 h2 r b p show ?thesis by blast
qed

lemma acquire_step:
  assumes "restore_inv f n repos s" "i < length (tasks s)" "pc (tasks s ! i) = WAcquire"
  shows "(step f repos (Worker i) s = None) = (holders s = n)"
proof -
  from assms(1) have nc: "\<not> crashed s" and st: "inv_static n s" and se: "inv_sem n s"
    by (simp_all add: restore_inv_def)
  from se have "length (buf (sem s)) = gate_count s" "gate_count s \<le> n"
    by (simp_all add: inv_sem_def)
  with st assms(2,3) nc holders_gate_count [OF assms(1)] show ?thesis
    by (auto simp: step_def worker_step_WAcquire inv_static_def panic_def)
qed

lemma release_step:
  assumes "restore_inv f n repos s" "1 \<le> n" "i < length (tasks s)" "pc (tasks s ! i) = WRelease"
  shows "step f repos (Worker i) s \<noteq> None"
  using assms by (intro worker_enabled) simp_all

text \<open>
  C2. For every capacity \<open>n \<ge> 1\<close>, every input list and every schedule, the number of
  tasks that have sent on \<open>sem\<close> and not yet received from it is at most \<open>n\<close>, and it is
  the number of values in \<open>sem\<close>. A task at its acquire is blocked exactly when \<open>n\<close>
  tasks hold the gate, and a task at its release is never blocked.
\<close>

theorem gate_never_over_capacity:
  assumes "1 \<le> n"
  shows "holders (restore f n repos sched) \<le> n \<and>
    length (buf (sem (restore f n repos sched))) = holders (restore f n repos sched) \<and>
    (i < length (tasks (restore f n repos sched)) \<and>
     pc (tasks (restore f n repos sched) ! i) = WAcquire \<longrightarrow>
       (step f repos (Worker i) (restore f n repos sched) = None) =
       (holders (restore f n repos sched) = n)) \<and>
    (i < length (tasks (restore f n repos sched)) \<and>
     pc (tasks (restore f n repos sched) ! i) = WRelease \<longrightarrow>
       step f repos (Worker i) (restore f n repos sched) \<noteq> None)"
proof -
  let ?s = "restore f n repos sched"
  have i: "restore_inv f n repos ?s" by (rule inv_restore)
  then have "inv_sem n ?s" by (simp add: restore_inv_def)
  then have "holders ?s \<le> n" "length (buf (sem ?s)) = holders ?s"
    using holders_gate_count [OF i] by (simp_all add: inv_sem_def)
  with acquire_step [OF i, of i] release_step [OF i assms, of i] show ?thesis by blast
qed

theorem gate_never_over_capacity_witness:
  "1 \<le> (4::nat) \<and>
   holders (restore (failing_on []) 4 main_repos full_gate) = 4 \<and>
   pc (tasks (restore (failing_on []) 4 main_repos full_gate) ! 4) = WAcquire \<and>
   step (failing_on []) main_repos (Worker 4) (restore (failing_on []) 4 main_repos full_gate) = None \<and>
   pc (tasks (restore (failing_on []) 4 main_repos full_gate) ! 3) = WRelease \<and>
   step (failing_on []) main_repos (Worker 3) (restore (failing_on []) 4 main_repos full_gate) \<noteq> None"
proof -
  have h: "1 \<le> (4::nat)" by simp
  have e: "holders (restore (failing_on []) 4 main_repos full_gate) = 4"
    "4 < length (tasks (restore (failing_on []) 4 main_repos full_gate))"
    "pc (tasks (restore (failing_on []) 4 main_repos full_gate) ! 4) = WAcquire"
    "3 < length (tasks (restore (failing_on []) 4 main_repos full_gate))"
    "pc (tasks (restore (failing_on []) 4 main_repos full_gate) ! 3) = WRelease"
    by code_simp+
  from gate_never_over_capacity [OF h, of "failing_on []" main_repos full_gate 4] e
  have a: "step (failing_on []) main_repos (Worker 4) (restore (failing_on []) 4 main_repos full_gate) = None"
    by simp
  from gate_never_over_capacity [OF h, of "failing_on []" main_repos full_gate 3] e
  have b: "step (failing_on []) main_repos (Worker 3) (restore (failing_on []) 4 main_repos full_gate) \<noteq> None"
    by simp
  from h e a b show ?thesis by simp
qed

lemma hist_prefix_nth:
  "restore_inv f n repos s \<Longrightarrow> i < length (tasks s) \<Longrightarrow>
   prefix (hist (tasks s ! i)) (task_order (repo (tasks s ! i)))"
  by (rule hist_prefix [OF task_ok_nth])

lemma main_keeps_sem:
  assumes "restore_inv f n repos s" "step f repos Main s = Some s'"
  shows "sem s' = sem s"
  using assms by (cases rule: inv_step_cases) (simp_all split: list.splits)

lemma loop_never_blocks:
  assumes "restore_inv f n repos s" "mpc s = MLoop k"
  shows "step f repos Main s =
    Some (if k < length repos
          then s\<lparr>tasks := tasks s @ [new_task (repos ! k)], mpc := MLoop (Suc k)\<rparr>
          else s\<lparr>mpc := MWait\<rparr>)"
  using assms by (simp add: restore_inv_def step_def restore_step_MLoop)

lemma sem_grows_by_acquire:
  assumes "restore_inv f n repos s" "step f repos t s = Some s'"
    "length (buf (sem s)) < length (buf (sem s'))"
  shows "\<exists>i. t = Worker i \<and> i < length (tasks s) \<and> pc (tasks s ! i) = WAcquire \<and>
             pc (tasks s' ! i) = WFetch"
  using assms by (cases rule: inv_step_cases) (simp_all split: list.splits)

text \<open>
  C3. In every execution no step of \<open>restore\<close> changes \<open>sem\<close>, and \<open>restore\<close> in its
  loop is never blocked: it starts the next goroutine or leaves the loop. A step that
  adds a value to \<open>sem\<close> is the step of a started goroutine at its acquire, which takes
  that goroutine to its work call; and what a goroutine has done is always an initial part
  of acquire, work, release, signal.
\<close>

theorem acquire_inside_task:
  "(step f repos Main (restore f 4 repos sched) = Some s' \<longrightarrow>
      sem s' = sem (restore f 4 repos sched)) \<and>
   (mpc (restore f 4 repos sched) = MLoop k \<longrightarrow>
      step f repos Main (restore f 4 repos sched) =
        Some (if k < length repos
              then (restore f 4 repos sched)
                     \<lparr>tasks := tasks (restore f 4 repos sched) @ [new_task (repos ! k)],
                      mpc := MLoop (Suc k)\<rparr>
              else (restore f 4 repos sched)\<lparr>mpc := MWait\<rparr>)) \<and>
   (step f repos t (restore f 4 repos sched) = Some s' \<and>
    length (buf (sem (restore f 4 repos sched))) < length (buf (sem s')) \<longrightarrow>
      (\<exists>i. t = Worker i \<and> i < length (tasks (restore f 4 repos sched)) \<and>
           pc (tasks (restore f 4 repos sched) ! i) = WAcquire \<and> pc (tasks s' ! i) = WFetch)) \<and>
   (i < length (tasks (restore f 4 repos sched)) \<longrightarrow>
      prefix (hist (tasks (restore f 4 repos sched) ! i))
             (task_order (repo (tasks (restore f 4 repos sched) ! i))))"
proof -
  let ?s = "restore f 4 repos sched"
  have i: "restore_inv f 4 repos ?s" by (rule inv_restore)
  show ?thesis
    using main_keeps_sem [OF i, of s'] loop_never_blocks [OF i, of k]
      sem_grows_by_acquire [OF i, of t s'] hist_prefix_nth [OF i, of i]
    by blast
qed

theorem acquire_inside_task_witness:
  "mpc (restore (failing_on []) 4 main_repos gate_full_in_loop) = MLoop 4 \<and>
   holders (restore (failing_on []) 4 main_repos gate_full_in_loop) = 4 \<and>
   step (failing_on []) main_repos Main (restore (failing_on []) 4 main_repos gate_full_in_loop) =
     Some (restore (failing_on []) 4 main_repos (gate_full_in_loop @ [Main])) \<and>
   sem (restore (failing_on []) 4 main_repos (gate_full_in_loop @ [Main])) =
     sem (restore (failing_on []) 4 main_repos gate_full_in_loop) \<and>
   step (failing_on []) main_repos (Worker 0) (restore (failing_on []) 4 main_repos before_acquire) =
     Some (restore (failing_on []) 4 main_repos (before_acquire @ [Worker 0])) \<and>
   length (buf (sem (restore (failing_on []) 4 main_repos before_acquire))) <
     length (buf (sem (restore (failing_on []) 4 main_repos (before_acquire @ [Worker 0])))) \<and>
   (\<exists>i. Worker 0 = Worker i \<and>
        pc (tasks (restore (failing_on []) 4 main_repos before_acquire) ! i) = WAcquire \<and>
        pc (tasks (restore (failing_on []) 4 main_repos (before_acquire @ [Worker 0])) ! i) = WFetch)"
proof -
  have e: "mpc (restore (failing_on []) 4 main_repos gate_full_in_loop) = MLoop 4"
    "holders (restore (failing_on []) 4 main_repos gate_full_in_loop) = 4"
    "step (failing_on []) main_repos Main (restore (failing_on []) 4 main_repos gate_full_in_loop) =
     Some (restore (failing_on []) 4 main_repos (gate_full_in_loop @ [Main]))"
    "step (failing_on []) main_repos (Worker 0) (restore (failing_on []) 4 main_repos before_acquire) =
     Some (restore (failing_on []) 4 main_repos (before_acquire @ [Worker 0]))"
    "length (buf (sem (restore (failing_on []) 4 main_repos before_acquire))) <
     length (buf (sem (restore (failing_on []) 4 main_repos (before_acquire @ [Worker 0]))))"
    by code_simp+
  from acquire_inside_task [of "failing_on []" main_repos gate_full_in_loop
      "restore (failing_on []) 4 main_repos (gate_full_in_loop @ [Main])"] e(3)
  have a: "sem (restore (failing_on []) 4 main_repos (gate_full_in_loop @ [Main])) =
     sem (restore (failing_on []) 4 main_repos gate_full_in_loop)"
    by simp
  from acquire_inside_task [of "failing_on []" main_repos before_acquire
      "restore (failing_on []) 4 main_repos (before_acquire @ [Worker 0])" _ "Worker 0"] e(4,5)
  have b: "\<exists>i. Worker 0 = Worker i \<and>
        pc (tasks (restore (failing_on []) 4 main_repos before_acquire) ! i) = WAcquire \<and>
        pc (tasks (restore (failing_on []) 4 main_repos (before_acquire @ [Worker 0])) ! i) = WFetch"
    by blast
  from e a b show ?thesis by blast
qed

lemma done_after_release:
  assumes "restore_inv f n repos s" "step f repos t s = Some s'" "wg s' < wg s"
  shows "\<exists>i. t = Worker i \<and> i < length (tasks s) \<and> pc (tasks s ! i) = WReturn \<and>
             hist (tasks s ! i) = [Acquired, Fetched (repo (tasks s ! i)), Released] \<and>
             \<not> holding (tasks s ! i) \<and> wg s' = wg s - 1"
  using assms
proof (cases rule: inv_step_cases)
  case (Return i)
  from task_ok_nth [OF assms(1) Return(2)] Return(3)
  have "hist (tasks s ! i) = [Acquired, Fetched (repo (tasks s ! i)), Released]"
    by (simp add: task_ok_def expected_hist_def)
  with Return show ?thesis by (simp add: holding_def)
next
  case Add
  with assms(1,3) show ?thesis by (simp add: restore_inv_def inv_wg_def)
qed (simp_all split: list.splits)

lemma waited_gate_free:
  assumes "restore_inv f n repos s" "waited (mpc s)"
  shows "holders s = 0 \<and> buf (sem s) = []"
proof -
  from assms have ex: "exited s = length (tasks s)" by (simp add: restore_inv_def inv_wg_def)
  have "\<not> in_gate (pc t)" if "t \<in> set (tasks s)" for t
  proof -
    from that obtain i where "i < length (tasks s)" "t = tasks s ! i"
      by (auto simp: in_set_conv_nth)
    with exited_all [OF ex] show ?thesis by simp
  qed
  then have "gate_count s = 0" by (simp add: gate_count_def)
  with assms(1) holders_gate_count [OF assms(1)] show ?thesis
    by (simp add: restore_inv_def inv_sem_def)
qed

text \<open>
  C4. In every execution a task's history is an initial part of acquire, work, release,
  signal; the step that lowers the WaitGroup counter is taken by a task that has already
  received from \<open>sem\<close> and holds the gate no longer; and once \<open>wg.Wait()\<close> has returned,
  no task holds the gate and \<open>sem\<close> is empty.
\<close>

theorem release_before_done:
  "(i < length (tasks (restore f 4 repos sched)) \<longrightarrow>
      prefix (hist (tasks (restore f 4 repos sched) ! i))
             [Acquired, Fetched (repo (tasks (restore f 4 repos sched) ! i)), Released, Signalled]) \<and>
   (step f repos t (restore f 4 repos sched) = Some s' \<and> wg s' < wg (restore f 4 repos sched) \<longrightarrow>
      (\<exists>i. t = Worker i \<and> i < length (tasks (restore f 4 repos sched)) \<and>
           hist (tasks (restore f 4 repos sched) ! i) =
             [Acquired, Fetched (repo (tasks (restore f 4 repos sched) ! i)), Released] \<and>
           \<not> holding (tasks (restore f 4 repos sched) ! i))) \<and>
   (waited (mpc (restore f 4 repos sched)) \<longrightarrow>
      holders (restore f 4 repos sched) = 0 \<and> buf (sem (restore f 4 repos sched)) = [])"
proof -
  let ?s = "restore f 4 repos sched"
  have i: "restore_inv f 4 repos ?s" by (rule inv_restore)
  have "\<exists>i. t = Worker i \<and> i < length (tasks ?s) \<and>
           hist (tasks ?s ! i) = [Acquired, Fetched (repo (tasks ?s ! i)), Released] \<and>
           \<not> holding (tasks ?s ! i)"
    if "step f repos t ?s = Some s'" "wg s' < wg ?s"
    using done_after_release [OF i that] by blast
  then show ?thesis
    using hist_prefix_nth [OF i, of i] waited_gate_free [OF i]
    by (simp add: task_order_def)
qed

theorem release_before_done_witness:
  "step (failing_on []) main_repos (Worker 0) (restore (failing_on []) 4 main_repos before_done) =
     Some (restore (failing_on []) 4 main_repos (before_done @ [Worker 0])) \<and>
   wg (restore (failing_on []) 4 main_repos (before_done @ [Worker 0])) <
     wg (restore (failing_on []) 4 main_repos before_done) \<and>
   hist (tasks (restore (failing_on []) 4 main_repos before_done) ! 0) =
     [Acquired, Fetched ''fatih/vim-go'', Released] \<and>
   \<not> holding (tasks (restore (failing_on []) 4 main_repos before_done) ! 0) \<and>
   waited (mpc (restore (failing_on []) 4 main_repos (round_robin 5 16))) \<and>
   holders (restore (failing_on []) 4 main_repos (round_robin 5 16)) = 0 \<and>
   buf (sem (restore (failing_on []) 4 main_repos (round_robin 5 16))) = []"
proof -
  have e: "step (failing_on []) main_repos (Worker 0) (restore (failing_on []) 4 main_repos before_done) =
     Some (restore (failing_on []) 4 main_repos (before_done @ [Worker 0]))"
    "wg (restore (failing_on []) 4 main_repos (before_done @ [Worker 0])) <
     wg (restore (failing_on []) 4 main_repos before_done)"
    "repo (tasks (restore (failing_on []) 4 main_repos before_done) ! 0) = ''fatih/vim-go''"
    "waited (mpc (restore (failing_on []) 4 main_repos (round_robin 5 16)))"
    by code_simp+
  from release_before_done [of _ "failing_on []" main_repos before_done "Worker 0"
      "restore (failing_on []) 4 main_repos (before_done @ [Worker 0])"] e(1,2,3)
  have a: "hist (tasks (restore (failing_on []) 4 main_repos before_done) ! 0) =
     [Acquired, Fetched ''fatih/vim-go'', Released] \<and>
   \<not> holding (tasks (restore (failing_on []) 4 main_repos before_done) ! 0)"
    by auto
  from release_before_done [of _ "failing_on []" main_repos "round_robin 5 16"] e(4)
  have b: "holders (restore (failing_on []) 4 main_repos (round_robin 5 16)) = 0 \<and>
   buf (sem (restore (failing_on []) 4 main_repos (round_robin 5 16))) = []"
    by blast
  from e a b show ?thesis by blast
qed

lemma repo_nth:
  "restore_inv f n repos s \<Longrightarrow> i < length (tasks s) \<Longrightarrow> repo (tasks s ! i) = repos ! i"
  by (simp add: restore_inv_def inv_tasks_def)

lemma fetched_prefix:
  assumes "restore_inv f n repos s" "i < length (tasks s)"
  shows "prefix (fetched (hist (tasks s ! i))) [repos ! i]"
  using task_ok_nth [OF assms] repo_nth [OF assms]
  by (cases "pc (tasks s ! i)") (simp_all add: task_ok_def expected_hist_def)


lemma waited_all_done:
  assumes "restore_inv f n repos s" "waited (mpc s)"
  shows "length (tasks s) = length repos"
    and "i < length (tasks s) \<Longrightarrow> pc (tasks s ! i) = WExit"
    and "i < length (tasks s) \<Longrightarrow> hist (tasks s ! i) = task_order (repos ! i)"
proof -
  from assms show "length (tasks s) = length repos"
    by (cases "mpc s") (simp_all add: restore_inv_def inv_tasks_def)
  from assms have ex: "exited s = length (tasks s)" by (simp add: restore_inv_def inv_wg_def)
  show p: "pc (tasks s ! i) = WExit" if "i < length (tasks s)"
    using exited_all [OF ex that] .
  show "hist (tasks s ! i) = task_order (repos ! i)" if "i < length (tasks s)"
    using task_ok_nth [OF assms(1) that] repo_nth [OF assms(1) that] p [OF that]
    by (simp add: task_ok_def expected_hist_def task_order_def)
qed

lemma returned_waited: "returned s \<noteq> None \<Longrightarrow> waited (mpc s)"
  by (cases "mpc s") (simp_all add: returned_def)

lemma calls_when_waited:
  assumes "restore_inv f n repos s" "waited (mpc s)"
  shows "calls s = map (\<lambda>r. [r]) repos"
proof (rule nth_equalityI)
  show "length (calls s) = length (map (\<lambda>r. [r]) repos)"
    using waited_all_done(1) [OF assms] by (simp add: calls_def)
next
  fix i assume "i < length (calls s)"
  then have i: "i < length (tasks s)" by (simp add: calls_def)
  with waited_all_done(1) [OF assms] waited_all_done(3) [OF assms i]
  show "calls s ! i = map (\<lambda>r. [r]) repos ! i"
    by (simp add: calls_def task_order_def)
qed



lemma single_failure_result:
  assumes "filter (\<lambda>r. f r \<noteq> None) repos = [x]" "f x = Some E" "result_ok f repos r"
  shows "r = Some E"
proof -
  have in_x: "y = x" if "y \<in> set repos" "f y \<noteq> None" for y
  proof -
    from that have "y \<in> set (filter (\<lambda>r. f r \<noteq> None) repos)" by simp
    with assms(1) show ?thesis by simp
  qed
  have "x \<in> set (filter (\<lambda>r. f r \<noteq> None) repos)" using assms(1) by simp
  then have x: "x \<in> set repos" by simp
  show ?thesis
  proof (cases r)
    case None
    with assms(3) x have "f x = None" by (simp add: result_ok_def)
    with assms(2) show ?thesis by simp
  next
    case (Some e)
    with assms(3) obtain y where y: "y \<in> set repos" "f y = Some e"
      by (auto simp: result_ok_def)
    with in_x [of y] assms(2) Some show ?thesis by simp
  qed
qed

text \<open>
  C6. If exactly one item \<open>x\<close> of the list fails, with error \<open>E\<close>, then in every execution
  no goroutine panics, some goroutine can move as long as \<open>restore\<close> has not returned,
  no schedule takes more than \<open>7 * length repos + 5\<close> steps, scheduling all goroutines
  in turn makes \<open>restore\<close> return, and the error that \<open>restore\<close> returns is \<open>E\<close>.
\<close>

theorem single_failure_returned:
  assumes "filter (\<lambda>r. f r \<noteq> None) repos = [x]" and "f x = Some E"
  shows "\<not> crashed (restore f 4 repos sched) \<and>
    (returned (restore f 4 repos sched) = None \<longrightarrow> can_move f repos (restore f 4 repos sched)) \<and>
    moves f repos sched (start 4) \<le> 7 * length repos + 5 \<and>
    returned (restore f 4 repos (sched @ round_robin (length repos) (7 * length repos + 5))) \<noteq> None \<and>
    (\<forall>r. returned (restore f 4 repos sched) = Some r \<longrightarrow> r = Some E)"
proof -
  let ?s = "restore f 4 repos sched"
  have i: "restore_inv f 4 repos ?s" by (rule inv_restore)
  from i have "\<not> crashed ?s" by (simp add: restore_inv_def)
  moreover have "returned ?s = None \<longrightarrow> can_move f repos ?s"
    using progress [OF i] by simp
  moreover have "moves f repos sched (start 4) \<le> 7 * length repos + 5"
    by (rule moves_bounded)
  moreover have "returned (restore f 4 repos
      (sched @ round_robin (length repos) (7 * length repos + 5))) \<noteq> None"
    by (rule round_robin_returns) simp
  moreover have "r = Some E" if "returned ?s = Some r" for r
    using single_failure_result [OF assms returned_result [OF i that]] .
  ultimately show ?thesis by blast
qed

theorem single_failure_returned_witness:
  "filter (\<lambda>r. failing_on [''spf13/cobra''] r \<noteq> None) main_repos = [''spf13/cobra''] \<and>
   failing_on [''spf13/cobra''] ''spf13/cobra'' = Some ''cannot fetch spf13/cobra'' \<and>
   returned (restore (failing_on [''spf13/cobra'']) 4 main_repos (round_robin 5 16)) =
     Some (Some ''cannot fetch spf13/cobra'')"
proof -
  have h1: "filter (\<lambda>r. failing_on [''spf13/cobra''] r \<noteq> None) main_repos = [''spf13/cobra'']"
    by code_simp
  have h2: "failing_on [''spf13/cobra''] ''spf13/cobra'' = Some ''cannot fetch spf13/cobra''"
    by code_simp
  have e: "returned (restore (failing_on [''spf13/cobra'']) 4 main_repos (round_robin 5 16)) \<noteq> None"
    by code_simp
  from single_failure_returned [OF h1 h2, of "round_robin 5 16"] e
  have "returned (restore (failing_on [''spf13/cobra'']) 4 main_repos (round_robin 5 16)) =
     Some (Some ''cannot fetch spf13/cobra'')"
    by auto
  with h1 h2 show ?thesis by blast
qed

lemma no_failure_result:
  assumes "list_all (\<lambda>r. f r = None) repos" "result_ok f repos r"
  shows "r = None"
proof (cases r)
  case None
  then show ?thesis .
next
  case (Some e)
  with assms(2) obtain y where "y \<in> set repos" "f y = Some e" by (auto simp: result_ok_def)
  with assms(1) show ?thesis by (auto simp: list_all_iff)
qed

lemma all_done_when_waited:
  assumes "restore_inv f n repos s" "waited (mpc s)"
  shows "list_all (\<lambda>t. pc t = WExit \<and> hist t = task_order (repo t)) (tasks s)"
proof -
  have "pc t = WExit \<and> hist t = task_order (repo t)" if "t \<in> set (tasks s)" for t
  proof -
    from that obtain i where i: "i < length (tasks s)" "t = tasks s ! i"
      by (auto simp: in_set_conv_nth)
    from waited_all_done(2,3) [OF assms i(1)] repo_nth [OF assms(1) i(1)] i(2)
    show ?thesis by simp
  qed
  then show ?thesis by (simp add: list_all_iff)
qed

lemma fetched_at_most_once:
  assumes "restore_inv f n repos s" "i < length (tasks s)"
  shows "length (fetched (hist (tasks s ! i))) \<le> 1"
  using prefix_length_le [OF fetched_prefix [OF assms]] by simp

text \<open>
  C7. If no work call fails, then in every execution no goroutine panics, some goroutine
  can move as long as \<open>restore\<close> has not returned, no schedule takes more than
  \<open>7 * length repos + 5\<close> steps, scheduling all goroutines in turn makes \<open>restore\<close>
  return, and \<open>restore\<close> returns \<open>nil\<close>. Whether work calls fail or
  not: when \<open>restore\<close> has returned, one goroutine per item has been started, each has
  ended after acquire, work, release and signal, so the work function has been called
  exactly once per item; and at no point has a goroutine called it more than once.
\<close>

theorem all_work_done_before_return:
  "(list_all (\<lambda>r. f r = None) repos \<longrightarrow>
      \<not> crashed (restore f 4 repos sched) \<and>
      (returned (restore f 4 repos sched) = None \<longrightarrow> can_move f repos (restore f 4 repos sched)) \<and>
      moves f repos sched (start 4) \<le> 7 * length repos + 5 \<and>
      returned (restore f 4 repos (sched @ round_robin (length repos) (7 * length repos + 5))) \<noteq> None \<and>
      (\<forall>r. returned (restore f 4 repos sched) = Some r \<longrightarrow> r = None)) \<and>
   (returned (restore f 4 repos sched) \<noteq> None \<longrightarrow>
      length (tasks (restore f 4 repos sched)) = length repos \<and>
      list_all (\<lambda>t. pc t = WExit \<and> hist t = task_order (repo t)) (tasks (restore f 4 repos sched)) \<and>
      calls (restore f 4 repos sched) = map (\<lambda>r. [r]) repos) \<and>
   (i < length (tasks (restore f 4 repos sched)) \<longrightarrow>
      length (fetched (hist (tasks (restore f 4 repos sched) ! i))) \<le> 1)"
proof -
  let ?s = "restore f 4 repos sched"
  have i: "restore_inv f 4 repos ?s" by (rule inv_restore)
  have a: "\<not> crashed ?s" using i by (simp add: restore_inv_def)
  have b: "returned ?s = None \<longrightarrow> can_move f repos ?s"
    using progress [OF i] by simp
  have c: "moves f repos sched (start 4) \<le> 7 * length repos + 5 \<and>
    returned (restore f 4 repos (sched @ round_robin (length repos) (7 * length repos + 5))) \<noteq> None"
    using moves_bounded [of f repos sched 4] round_robin_returns [of 4 f repos sched] by simp
  have d: "r = None" if "list_all (\<lambda>r. f r = None) repos" "returned ?s = Some r" for r
    using no_failure_result [OF that(1) returned_result [OF i that(2)]] .
  have e: "length (tasks ?s) = length repos \<and>
      list_all (\<lambda>t. pc t = WExit \<and> hist t = task_order (repo t)) (tasks ?s) \<and>
      calls ?s = map (\<lambda>r. [r]) repos" if "returned ?s \<noteq> None"
    using waited_all_done(1) [OF i returned_waited [OF that]]
      all_done_when_waited [OF i returned_waited [OF that]]
      calls_when_waited [OF i returned_waited [OF that]] by simp
  from a b c d e fetched_at_most_once [OF i, of i] show ?thesis by blast
qed

theorem all_work_done_before_return_witness:
  "list_all (\<lambda>r. (fetch r :: string option) = None) main_repos \<and>
   returned (restore (fetch :: string \<Rightarrow> string option) 4 main_repos (round_robin 5 16)) = Some None \<and>
   returned (restore (failing_on main_repos) 4 main_repos (round_robin 5 16)) \<noteq> None \<and>
   calls (restore (failing_on main_repos) 4 main_repos (round_robin 5 16)) =
     map (\<lambda>r. [r]) main_repos \<and>
   list_all (\<lambda>t. pc t = WExit \<and> hist t = task_order (repo t))
     (tasks (restore (failing_on main_repos) 4 main_repos (round_robin 5 16)))"
proof -
  have h: "list_all (\<lambda>r. (fetch r :: string option) = None) main_repos"
    by code_simp
  have e: "returned (restore (fetch :: string \<Rightarrow> string option) 4 main_repos (round_robin 5 16)) \<noteq> None"
    "returned (restore (failing_on main_repos) 4 main_repos (round_robin 5 16)) \<noteq> None"
    by code_simp+
  from all_work_done_before_return [of "fetch :: string \<Rightarrow> string option" main_repos "round_robin 5 16"] h e(1)
  have a: "returned (restore (fetch :: string \<Rightarrow> string option) 4 main_repos (round_robin 5 16)) = Some None"
    by auto
  from all_work_done_before_return [of "failing_on main_repos" main_repos "round_robin 5 16"] e(2)
  have b: "calls (restore (failing_on main_repos) 4 main_repos (round_robin 5 16)) =
     map (\<lambda>r. [r]) main_repos \<and>
   list_all (\<lambda>t. pc t = WExit \<and> hist t = task_order (repo t))
     (tasks (restore (failing_on main_repos) 4 main_repos (round_robin 5 16)))"
    by simp
  from h e a b show ?thesis by blast
qed

text \<open>
  C9. The work function of the model is a function of the item, that is pure and
  deterministic. Two calls of \<open>restore\<close> with the same items and work function, under
  any two schedules, agree on success versus failure: the result is \<open>nil\<close> exactly when
  no item fails. Each call is free of panics and deadlocks, takes a bounded number of
  steps, and returns when all goroutines are scheduled in turn.
\<close>

theorem same_outcome_twice:
  "\<not> crashed (restore f 4 repos sched1) \<and>
   (returned (restore f 4 repos sched1) = None \<longrightarrow> can_move f repos (restore f 4 repos sched1)) \<and>
   moves f repos sched1 (start 4) \<le> 7 * length repos + 5 \<and>
   returned (restore f 4 repos (sched1 @ round_robin (length repos) (7 * length repos + 5))) \<noteq> None \<and>
   (\<forall>r1 r2. returned (restore f 4 repos sched1) = Some r1 \<and>
            returned (restore f 4 repos sched2) = Some r2 \<longrightarrow>
            (r1 = None) = (r2 = None) \<and> (r1 = None) = list_all (\<lambda>x. f x = None) repos)"
proof -
  let ?s = "restore f 4 repos sched1"
  have i: "restore_inv f 4 repos ?s" by (rule inv_restore)
  have a: "\<not> crashed ?s" using i by (simp add: restore_inv_def)
  have b: "returned ?s = None \<longrightarrow> can_move f repos ?s"
    using progress [OF i] by simp
  have c: "moves f repos sched1 (start 4) \<le> 7 * length repos + 5 \<and>
    returned (restore f 4 repos (sched1 @ round_robin (length repos) (7 * length repos + 5))) \<noteq> None"
    using moves_bounded [of f repos sched1 4] round_robin_returns [of 4 f repos sched1] by simp
  have d: "(r = None) = list_all (\<lambda>x. f x = None) repos"
    if "returned (restore f 4 repos sched) = Some r" for r sched
    using returned_result [OF inv_restore that]
    by (cases r) (auto simp: result_ok_def list_all_iff)
  from a b c d show ?thesis by blast
qed

theorem same_outcome_twice_witness:
  "returned (restore (failing_on [''pkg/errors'', ''golang/go'']) 4 main_repos (round_robin 5 16)) =
     Some (Some ''cannot fetch pkg/errors'') \<and>
   returned (restore (failing_on [''pkg/errors'', ''golang/go'']) 4 main_repos
     (script [(Main, 7), (Worker 4, 6), (Worker 3, 6), (Worker 2, 6), (Worker 1, 6), (Worker 0, 6), (Main, 3)])) =
     Some (Some ''cannot fetch golang/go'') \<and>
   ((Some ''cannot fetch pkg/errors'' = None) = (Some ''cannot fetch golang/go'' = (None :: string option)))"
proof -
  have e: "returned (restore (failing_on [''pkg/errors'', ''golang/go'']) 4 main_repos (round_robin 5 16)) =
     Some (Some ''cannot fetch pkg/errors'')"
    "returned (restore (failing_on [''pkg/errors'', ''golang/go'']) 4 main_repos
     (script [(Main, 7), (Worker 4, 6), (Worker 3, 6), (Worker 2, 6), (Worker 1, 6), (Worker 0, 6), (Main, 3)])) =
     Some (Some ''cannot fetch golang/go'')"
    by code_simp+
  from same_outcome_twice [of "failing_on [''pkg/errors'', ''golang/go'']" main_repos "round_robin 5 16"
     "script [(Main, 7), (Worker 4, 6), (Worker 3, 6), (Worker 2, 6), (Worker 1, 6), (Worker 0, 6), (Main, 3)]"] e
  have "(Some ''cannot fetch pkg/errors'' = None) = (Some ''cannot fetch golang/go'' = (None :: string option))"
    by blast
  with e show ?thesis by blast
qed

lemma empty_tasks: "restore_inv f n [] s \<Longrightarrow> tasks s = []"
  using tasks_bound [of f n "[]" s] by simp

lemma empty_remaining: "restore_inv f n [] s \<Longrightarrow> remaining [] s = main_left 0 (mpc s)"
  by (simp add: remaining_def empty_tasks)

lemma empty_main_step:
  assumes "restore_inv f n [] s" "step f [] Main s = Some s'"
  shows "Suc (remaining [] s') = remaining [] s"
  using assms by (cases rule: inv_step_cases) (simp_all add: remaining_def split: list.splits)

lemma empty_main_enabled:
  assumes "restore_inv f n [] s" "1 \<le> n" "returned s = None"
  shows "step f [] Main s \<noteq> None"
  using progress [OF assms] empty_tasks [OF assms(1)]
  by (simp add: can_move_def threads_def)

lemma returned_iff_remaining:
  assumes "restore_inv f n [] s"
  shows "(returned s \<noteq> None) = (remaining [] s = 0)"
  using empty_remaining [OF assms] by (cases "mpc s") (simp_all add: returned_def)

lemma empty_run:
  assumes "1 \<le> n"
  shows "restore_inv f n [] s \<Longrightarrow>
   remaining [] (run f [] sched s) = remaining [] s - count_list sched Main"
proof (induction sched arbitrary: s)
  case Nil
  then show ?case by simp
next
  case (Cons t ts)
  show ?case
  proof (cases t)
    case (Worker i)
    from empty_tasks [OF Cons.prems] have "step f [] (Worker i) s = None"
      by (simp add: step_def worker_step_none)
    with Worker Cons show ?thesis by simp
  next
    case Main
    show ?thesis
    proof (cases "step f [] Main s")
      case None
      with empty_main_enabled [OF Cons.prems assms] have "returned s \<noteq> None" by blast
      with returned_iff_remaining [OF Cons.prems] have "remaining [] s = 0" by simp
      with None Main Cons show ?thesis by simp
    next
      case (Some s')
      from inv_step [OF Cons.prems Some] have "restore_inv f n [] s'" .
      from Cons.IH [OF this] empty_main_step [OF Cons.prems Some] Some Main
      show ?thesis by simp
    qed
  qed
qed

text \<open>
  C8. On the empty list no goroutine is ever started and \<open>sem\<close> stays empty; \<open>restore\<close>
  is never blocked before it returns; what it returns is \<open>nil\<close>; and it has returned
  \<open>nil\<close> as soon as it has been scheduled five times (its five statements).
\<close>

theorem empty_list_returns_nil:
  "tasks (restore f 4 [] sched) = [] \<and>
   buf (sem (restore f 4 [] sched)) = [] \<and>
   \<not> crashed (restore f 4 [] sched) \<and>
   (returned (restore f 4 [] sched) = None \<longrightarrow> step f [] Main (restore f 4 [] sched) \<noteq> None) \<and>
   (\<forall>r. returned (restore f 4 [] sched) = Some r \<longrightarrow> r = None) \<and>
   (5 \<le> count_list sched Main \<longrightarrow> returned (restore f 4 [] sched) = Some None)"
proof -
  let ?s = "restore f 4 [] sched"
  have i: "restore_inv f 4 [] ?s" by (rule inv_restore)
  have a: "tasks ?s = []" by (rule empty_tasks [OF i])
  then have "gate_count ?s = 0" by (simp add: gate_count_def)
  with i have b: "buf (sem ?s) = []" by (simp add: restore_inv_def inv_sem_def)
  from i have c: "\<not> crashed ?s" by (simp add: restore_inv_def)
  have d: "returned ?s = None \<longrightarrow> step f [] Main ?s \<noteq> None"
    using empty_main_enabled [OF i] by simp
  have e: "r = None" if "returned ?s = Some r" for r
    using returned_result [OF i that] by (cases r) (simp_all add: result_ok_def)
  have "remaining [] ?s = remaining [] (start 4 :: 'a state) - count_list sched Main"
    unfolding restore_def by (rule empty_run [OF _ inv_start]) simp
  then have "remaining [] ?s = 0" if "5 \<le> count_list sched Main"
    using that by (simp add: remaining_start)
  with returned_iff_remaining [OF i] e
  have g: "5 \<le> count_list sched Main \<longrightarrow> returned ?s = Some None" by auto
  from a b c d e g show ?thesis by blast
qed

theorem empty_list_returns_nil_witness:
  "returned (restore (failing_on main_repos) 4 [] (script [(Main, 4)])) = None \<and>
   step (failing_on main_repos) [] Main (restore (failing_on main_repos) 4 [] (script [(Main, 4)])) \<noteq> None \<and>
   5 \<le> count_list (script [(Worker 0, 2), (Main, 5)]) Main \<and>
   returned (restore (failing_on main_repos) 4 [] (script [(Worker 0, 2), (Main, 5)])) = Some None"
proof -
  have e: "returned (restore (failing_on main_repos) 4 [] (script [(Main, 4)])) = None"
    "5 \<le> count_list (script [(Worker 0, 2), (Main, 5)]) Main"
    by code_simp+
  from empty_list_returns_nil [of "failing_on main_repos" "script [(Main, 4)]"] e(1)
  have a: "step (failing_on main_repos) [] Main (restore (failing_on main_repos) 4 [] (script [(Main, 4)])) \<noteq> None"
    by blast
  from empty_list_returns_nil [of "failing_on main_repos" "script [(Worker 0, 2), (Main, 5)]"] e(2)
  have b: "returned (restore (failing_on main_repos) 4 [] (script [(Worker 0, 2), (Main, 5)])) = Some None"
    by blast
  from e a b show ?thesis by blast
qed

lemma signal_count:
  assumes "restore_inv f n repos s" "i < length (tasks s)"
  shows "count_list (hist (tasks s ! i)) Signalled = (if pc (tasks s ! i) = WExit then 1 else 0)"
    and "deferred (tasks s ! i) = (pc (tasks s ! i) \<noteq> WDefer \<and> pc (tasks s ! i) \<noteq> WExit)"
    and "pc (tasks s ! i) = WDefer \<Longrightarrow> hist (tasks s ! i) = []"
  using task_ok_nth [OF assms]
  by (cases "pc (tasks s ! i)"; simp add: task_ok_def expected_hist_def)+

lemma exited_le: "exited s \<le> length (tasks s)"
  by (simp add: exited_def)

lemma wg_counts:
  assumes "restore_inv f n repos s"
  shows "wg s = (if mpc s = MAdd then 0 else int (length repos) - int (exited s))"
    and "0 \<le> wg s"
proof -
  from assms show w: "wg s = (if mpc s = MAdd then 0 else int (length repos) - int (exited s))"
    by (simp add: restore_inv_def inv_wg_def)
  from exited_le [of s] tasks_bound [OF assms] have "int (exited s) \<le> int (length repos)" by simp
  with w show "0 \<le> wg s" by simp
qed

lemma wait_step:
  assumes "restore_inv f n repos s" "mpc s = MWait"
  shows "length (tasks s) = length repos"
    and "(step f repos Main s \<noteq> None) = (exited s = length repos)"
proof -
  from assms show "length (tasks s) = length repos" by (simp add: restore_inv_def inv_tasks_def)
  from assms have "\<not> crashed s" by (simp add: restore_inv_def)
  with assms(2) wg_counts(1) [OF assms(1)]
  show "(step f repos Main s \<noteq> None) = (exited s = length repos)"
    by (auto simp: step_def restore_step_MWait)
qed

lemma return_step:
  assumes "restore_inv f n repos s" "step f repos (Worker i) s = Some s'" "pc (tasks s ! i) = WReturn"
  shows "wg s' = wg s - 1 \<and> pc (tasks s' ! i) = WExit"
  using assms by (cases rule: inv_step_cases) simp_all

lemma all_signalled_when_waited:
  assumes "restore_inv f n repos s" "waited (mpc s)"
  shows "list_all (\<lambda>t. count_list (hist t) Signalled = 1) (tasks s)"
proof -
  have "count_list (hist t) Signalled = 1" if "t \<in> set (tasks s)" for t
  proof -
    from that obtain i where i: "i < length (tasks s)" "t = tasks s ! i"
      by (auto simp: in_set_conv_nth)
    from waited_all_done(3) [OF assms i(1)] i(2) show ?thesis by (simp add: task_order_def)
  qed
  then show ?thesis by (simp add: list_all_iff)
qed

text \<open>
  C10. In every execution, whatever the work function returns: a goroutine's history
  holds one signal when it has ended and none before; \<open>wg.Done\<close> is on its defer stack
  from its first step to its return, and it has done nothing before that first step; the
  return step lowers the counter by one and ends the goroutine. The counter is never
  negative and, after \<open>wg.Add\<close>, it is the number of items minus the number of ended
  goroutines. At \<open>wg.Wait()\<close> as many goroutines have been started as there are items,
  and \<open>restore\<close> can go on exactly when all of them have ended; after the wait the counter
  is zero and every goroutine has signalled once. Every goroutine does reach its signal:
  no goroutine panics, some goroutine can move as long as \<open>restore\<close> has not returned,
  and after any schedule, scheduling all goroutines in turn leads to a state in which
  \<open>restore\<close> has returned, one goroutine per item has been started, and each of them
  has ended with exactly one signal in its history.
\<close>

theorem every_task_signals_once:
  "(i < length (tasks (restore f 4 repos sched)) \<longrightarrow>
      count_list (hist (tasks (restore f 4 repos sched) ! i)) Signalled =
        (if pc (tasks (restore f 4 repos sched) ! i) = WExit then 1 else 0) \<and>
      deferred (tasks (restore f 4 repos sched) ! i) =
        (pc (tasks (restore f 4 repos sched) ! i) \<noteq> WDefer \<and>
         pc (tasks (restore f 4 repos sched) ! i) \<noteq> WExit) \<and>
      (pc (tasks (restore f 4 repos sched) ! i) = WDefer \<longrightarrow>
         hist (tasks (restore f 4 repos sched) ! i) = [])) \<and>
   (step f repos (Worker i) (restore f 4 repos sched) = Some s' \<and>
    pc (tasks (restore f 4 repos sched) ! i) = WReturn \<longrightarrow>
      wg s' = wg (restore f 4 repos sched) - 1 \<and> pc (tasks s' ! i) = WExit) \<and>
   0 \<le> wg (restore f 4 repos sched) \<and>
   wg (restore f 4 repos sched) =
     (if mpc (restore f 4 repos sched) = MAdd then 0
      else int (length repos) - int (exited (restore f 4 repos sched))) \<and>
   (mpc (restore f 4 repos sched) = MWait \<longrightarrow>
      length (tasks (restore f 4 repos sched)) = length repos \<and>
      (step f repos Main (restore f 4 repos sched) \<noteq> None) =
        (exited (restore f 4 repos sched) = length repos)) \<and>
   (waited (mpc (restore f 4 repos sched)) \<longrightarrow>
      wg (restore f 4 repos sched) = 0 \<and>
      length (tasks (restore f 4 repos sched)) = length repos \<and>
      list_all (\<lambda>t. count_list (hist t) Signalled = 1) (tasks (restore f 4 repos sched))) \<and>
   \<not> crashed (restore f 4 repos sched) \<and>
   (returned (restore f 4 repos sched) = None \<longrightarrow> can_move f repos (restore f 4 repos sched)) \<and>
   returned (restore f 4 repos (sched @ round_robin (length repos) (7 * length repos + 5))) \<noteq> None \<and>
   length (tasks (restore f 4 repos (sched @ round_robin (length repos) (7 * length repos + 5)))) =
     length repos \<and>
   list_all (\<lambda>t. pc t = WExit \<and> count_list (hist t) Signalled = 1)
     (tasks (restore f 4 repos (sched @ round_robin (length repos) (7 * length repos + 5))))"
proof -
  let ?s = "restore f 4 repos sched"
  let ?fin = "restore f 4 repos (sched @ round_robin (length repos) (7 * length repos + 5))"
  have i: "restore_inv f 4 repos ?s" by (rule inv_restore)
  have a: "i < length (tasks ?s) \<longrightarrow>
      count_list (hist (tasks ?s ! i)) Signalled = (if pc (tasks ?s ! i) = WExit then 1 else 0) \<and>
      deferred (tasks ?s ! i) = (pc (tasks ?s ! i) \<noteq> WDefer \<and> pc (tasks ?s ! i) \<noteq> WExit) \<and>
      (pc (tasks ?s ! i) = WDefer \<longrightarrow> hist (tasks ?s ! i) = [])"
    using signal_count [OF i, of i] by blast
  have b: "step f repos (Worker i) ?s = Some s' \<and> pc (tasks ?s ! i) = WReturn \<longrightarrow>
      wg s' = wg ?s - 1 \<and> pc (tasks s' ! i) = WExit"
    using return_step [OF i, of i s'] by blast
  have c: "mpc ?s = MWait \<longrightarrow> length (tasks ?s) = length repos \<and>
      (step f repos Main ?s \<noteq> None) = (exited ?s = length repos)"
    using wait_step [OF i] by blast
  have d: "wg ?s = 0 \<and> length (tasks ?s) = length repos \<and>
      list_all (\<lambda>t. count_list (hist t) Signalled = 1) (tasks ?s)" if w: "waited (mpc ?s)"
  proof -
    from i w have "exited ?s = length (tasks ?s)" by (simp add: restore_inv_def inv_wg_def)
    moreover from w have "mpc ?s \<noteq> MAdd" by auto
    ultimately show ?thesis
      using wg_counts(1) [OF i] waited_all_done(1) [OF i w] all_signalled_when_waited [OF i w]
      by simp
  qed
  have nc: "\<not> crashed ?s" using i by (simp add: restore_inv_def)
  have pr: "returned ?s = None \<longrightarrow> can_move f repos ?s"
    using progress [OF i] by simp
  have fi: "restore_inv f 4 repos ?fin" by (rule inv_restore)
  have rt: "returned ?fin \<noteq> None" by (rule round_robin_returns) simp
  have wf: "waited (mpc ?fin)" by (rule returned_waited [OF rt])
  have ln: "length (tasks ?fin) = length repos" by (rule waited_all_done(1) [OF fi wf])
  have "pc t = WExit \<and> count_list (hist t) Signalled = 1" if "t \<in> set (tasks ?fin)" for t
  proof -
    from that obtain j where j: "j < length (tasks ?fin)" "t = tasks ?fin ! j"
      by (auto simp: in_set_conv_nth)
    from waited_all_done(2,3) [OF fi wf j(1)] j(2) show ?thesis
      by (simp add: task_order_def)
  qed
  then have al: "list_all (\<lambda>t. pc t = WExit \<and> count_list (hist t) Signalled = 1) (tasks ?fin)"
    by (simp add: list_all_iff)
  from a b c d wg_counts [OF i] have old:
    "(i < length (tasks ?s) \<longrightarrow>
      count_list (hist (tasks ?s ! i)) Signalled = (if pc (tasks ?s ! i) = WExit then 1 else 0) \<and>
      deferred (tasks ?s ! i) = (pc (tasks ?s ! i) \<noteq> WDefer \<and> pc (tasks ?s ! i) \<noteq> WExit) \<and>
      (pc (tasks ?s ! i) = WDefer \<longrightarrow> hist (tasks ?s ! i) = [])) \<and>
     (step f repos (Worker i) ?s = Some s' \<and> pc (tasks ?s ! i) = WReturn \<longrightarrow>
        wg s' = wg ?s - 1 \<and> pc (tasks s' ! i) = WExit) \<and>
     0 \<le> wg ?s \<and>
     wg ?s = (if mpc ?s = MAdd then 0 else int (length repos) - int (exited ?s)) \<and>
     (mpc ?s = MWait \<longrightarrow> length (tasks ?s) = length repos \<and>
        (step f repos Main ?s \<noteq> None) = (exited ?s = length repos)) \<and>
     (waited (mpc ?s) \<longrightarrow> wg ?s = 0 \<and> length (tasks ?s) = length repos \<and>
        list_all (\<lambda>t. count_list (hist t) Signalled = 1) (tasks ?s))"
    by blast
  from old nc pr rt ln al show ?thesis by blast
qed

theorem every_task_signals_once_witness:
  "mpc (restore (failing_on [''fatih/vim-go'']) 4 main_repos one_left) = MWait \<and>
   exited (restore (failing_on [''fatih/vim-go'']) 4 main_repos one_left) = 4 \<and>
   wg (restore (failing_on [''fatih/vim-go'']) 4 main_repos one_left) = 1 \<and>
   step (failing_on [''fatih/vim-go'']) main_repos Main
     (restore (failing_on [''fatih/vim-go'']) 4 main_repos one_left) = None \<and>
   pc (tasks (restore (failing_on [''fatih/vim-go'']) 4 main_repos one_left) ! 4) = WReturn \<and>
   step (failing_on [''fatih/vim-go'']) main_repos (Worker 4)
     (restore (failing_on [''fatih/vim-go'']) 4 main_repos one_left) =
     Some (restore (failing_on [''fatih/vim-go'']) 4 main_repos (one_left @ [Worker 4])) \<and>
   wg (restore (failing_on [''fatih/vim-go'']) 4 main_repos (one_left @ [Worker 4])) = 0 \<and>
   waited (mpc (restore (failing_on [''fatih/vim-go'']) 4 main_repos (one_left @ [Worker 4, Main]))) \<and>
   list_all (\<lambda>t. count_list (hist t) Signalled = 1)
     (tasks (restore (failing_on [''fatih/vim-go'']) 4 main_repos (one_left @ [Worker 4, Main]))) \<and>
   returned (restore (failing_on main_repos) 4 main_repos two_failures) = None \<and>
   can_move (failing_on main_repos) main_repos
     (restore (failing_on main_repos) 4 main_repos two_failures) \<and>
   returned (restore (failing_on main_repos) 4 main_repos
     (two_failures @ round_robin (length main_repos) (7 * length main_repos + 5))) \<noteq> None \<and>
   length (tasks (restore (failing_on main_repos) 4 main_repos
     (two_failures @ round_robin (length main_repos) (7 * length main_repos + 5)))) = 5 \<and>
   list_all (\<lambda>t. pc t = WExit \<and> count_list (hist t) Signalled = 1)
     (tasks (restore (failing_on main_repos) 4 main_repos
       (two_failures @ round_robin (length main_repos) (7 * length main_repos + 5)))) \<and>
   map (\<lambda>t. count_list (hist t) Signalled)
     (tasks (restore (failing_on main_repos) 4 main_repos (two_failures @ round_robin 5 16))) =
     [1, 1, 1, 1, 1]"
proof -
  let ?f = "failing_on [''fatih/vim-go'']"
  let ?g = "failing_on main_repos"
  let ?rr = "round_robin (length main_repos) (7 * length main_repos + 5)"
  have e: "mpc (restore ?f 4 main_repos one_left) = MWait"
    "exited (restore ?f 4 main_repos one_left) = 4"
    "length main_repos = 5"
    "pc (tasks (restore ?f 4 main_repos one_left) ! 4) = WReturn"
    "step ?f main_repos (Worker 4) (restore ?f 4 main_repos one_left) =
       Some (restore ?f 4 main_repos (one_left @ [Worker 4]))"
    "waited (mpc (restore ?f 4 main_repos (one_left @ [Worker 4, Main])))"
    by code_simp+
  note t = every_task_signals_once [of _ ?f main_repos one_left]
  from t [of 0] e(1,2,3)
  have a: "wg (restore ?f 4 main_repos one_left) = 1 \<and>
     step ?f main_repos Main (restore ?f 4 main_repos one_left) = None"
    by simp
  from t [of 4 "restore ?f 4 main_repos (one_left @ [Worker 4])"] e(4,5) a
  have b: "wg (restore ?f 4 main_repos (one_left @ [Worker 4])) = 0"
    by simp
  from every_task_signals_once [of _ ?f main_repos "one_left @ [Worker 4, Main]"] e(6)
  have c: "list_all (\<lambda>t. count_list (hist t) Signalled = 1)
     (tasks (restore ?f 4 main_repos (one_left @ [Worker 4, Main])))"
    by blast
  have g: "returned (restore ?g 4 main_repos two_failures) = None"
    "map (\<lambda>t. count_list (hist t) Signalled)
       (tasks (restore ?g 4 main_repos (two_failures @ round_robin 5 16))) = [1, 1, 1, 1, 1]"
    by code_simp+
  note u = every_task_signals_once [of _ ?g main_repos two_failures]
  from u [of 0] g(1)
  have d: "can_move ?g main_repos (restore ?g 4 main_repos two_failures)"
    by blast
  from u [of 0]
  have l: "returned (restore ?g 4 main_repos (two_failures @ ?rr)) \<noteq> None \<and>
     length (tasks (restore ?g 4 main_repos (two_failures @ ?rr))) = length main_repos \<and>
     list_all (\<lambda>t. pc t = WExit \<and> count_list (hist t) Signalled = 1)
       (tasks (restore ?g 4 main_repos (two_failures @ ?rr)))"
    by blast
  from e a b c g d l show ?thesis by simp
qed

section \<open>The original version does not have these properties\<close>

text \<open>
  With two failing items the original \<open>restore\<close> can deadlock: the first closure fills
  \<open>errChan\<close>, the second blocks in its send, and \<open>restore\<close> waits for it forever.
\<close>

lemma original_deadlocks_on_two_failures:
  "ompc (original_restore (failing_on main_repos) 4 [''pkg/errors'', ''golang/go''] both_fail) = OWait \<and>
   \<not> ocrashed (original_restore (failing_on main_repos) 4 [''pkg/errors'', ''golang/go''] both_fail) \<and>
   original_stuck (failing_on main_repos) [''pkg/errors'', ''golang/go'']
     (original_restore (failing_on main_repos) 4 [''pkg/errors'', ''golang/go''] both_fail)"
  by code_simp

text \<open>
  The loop of the original \<open>restore\<close> acquires the gate itself: with four goroutines
  started and none of them run yet, \<open>restore\<close> is blocked at its fifth \<open>sem <- 1\<close>.
\<close>

lemma original_loop_blocks_on_full_gate:
  "ompc (original_restore (failing_on []) 4 main_repos loop_only) = OAcquire 4 \<and>
   map cpc (closures (original_restore (failing_on []) 4 main_repos loop_only)) =
     [ODefer, ODefer, ODefer, ODefer] \<and>
   original_step (failing_on []) main_repos Main
     (original_restore (failing_on []) 4 main_repos loop_only) = None"
  by code_simp

text \<open>
  In the original closure \<open>wg.Done()\<close> comes before \<open><-sem\<close>: \<open>wg.Wait()\<close> can return,
  and \<open>restore\<close> be at \<open>close(sem)\<close>, while the closure has not yet received from \<open>sem\<close>.
\<close>

lemma original_wait_returns_with_gate_held:
  "ompc (original_restore (failing_on []) 4 [''golang/go''] done_not_released) = OCloseSem \<and>
   buf (osem (original_restore (failing_on []) 4 [''golang/go''] done_not_released)) = [1] \<and>
   map cpc (closures (original_restore (failing_on []) 4 [''golang/go''] done_not_released)) =
     [ORelease] \<and>
   chist (closures (original_restore (failing_on []) 4 [''golang/go''] done_not_released) ! 0) =
     [Fetched ''golang/go'', Signalled]"
  by code_simp

text \<open>
  The original closures read the loop variable when they run: started for two different
  items, both can call the work function with the second one.
\<close>

lemma original_closures_share_loop_variable:
  "concat (map chist (closures (original_restore (failing_on []) 4 [''pkg/errors'', ''golang/go'']
      loop_before_fetch))) =
     [Fetched ''golang/go'', Fetched ''golang/go'']"
  by code_simp

end
